theory Spec2Isabelle
  imports
    Complex_Main
    "HOL-Library.Multiset"
    "HOL-Library.Char_ord"
    "HOL-Library.List_Lexorder"
    "HOL-Library.Log_Nat"
begin

chapter \<open>DNS Intel: the DNS intelligence engine\<close>

text \<open>
  A shallow embedding of the services of the repository: the DoH client and the
  propagation analyzer (\<^verbatim>\<open>services/dnsResolver.ts\<close>), the zone health engine
  (\<^verbatim>\<open>services/zoneHealth.ts\<close>) and the subdomain discovery pipeline
  (\<^verbatim>\<open>services/subdomainEnum.ts\<close>). Strings are \<^typ>\<open>string\<close>; the default order on
  them (imported from the library) is the lexicographic order on character codes, which
  is the order of JavaScript's default \<^verbatim>\<open>Array.prototype.sort\<close> on strings.
\<close>

section \<open>String primitives of the host language\<close>

text \<open>\<^verbatim>\<open>s.startsWith(p)\<close>\<close>

fun startsWith :: "string \<Rightarrow> string \<Rightarrow> bool" where
  "startsWith s [] = True"
| "startsWith [] (c # p) = False"
| "startsWith (d # s) (c # p) = (d = c \<and> startsWith s p)"

text \<open>\<^verbatim>\<open>s.includes(p)\<close>\<close>

fun includes_str :: "string \<Rightarrow> string \<Rightarrow> bool" where
  "includes_str [] p = (p = [])"
| "includes_str (c # s) p = (startsWith (c # s) p \<or> includes_str s p)"

text \<open>\<^verbatim>\<open>xs.join(sep)\<close>\<close>

fun join :: "string \<Rightarrow> string list \<Rightarrow> string" where
  "join sep [] = []"
| "join sep [x] = x"
| "join sep (x # y # ys) = x @ sep @ join sep (y # ys)"

text \<open>
  \<^verbatim>\<open>s.replace(p, '')\<close> with a string pattern: the first occurrence of \<open>p\<close> is removed.
\<close>

fun dropPrefix :: "string \<Rightarrow> string \<Rightarrow> string" where
  "dropPrefix s [] = s"
| "dropPrefix [] (c # p) = []"
| "dropPrefix (d # s) (c # p) = dropPrefix s p"

fun replaceFirst :: "string \<Rightarrow> string \<Rightarrow> string" where
  "replaceFirst [] p = []"
| "replaceFirst (c # s) p =
     (if startsWith (c # s) p then dropPrefix (c # s) p else c # replaceFirst s p)"

text \<open>The decimal rendering of a natural number, as a template literal prints it.\<close>

definition digit :: "nat \<Rightarrow> char" where
  "digit n = ''0123456789'' ! n"

function showNat :: "nat \<Rightarrow> string" where
  "showNat n = (if n < 10 then [digit n] else showNat (n div 10) @ [digit (n mod 10)])"
  by pat_completeness auto
termination
  by (relation "measure id") auto

definition showInt :: "int \<Rightarrow> string" where
  "showInt i = (if i < 0 then CHR ''-'' # showNat (nat (- i)) else showNat (nat i))"

section \<open>DoH client and resolver registry\<close>

subsection \<open>Record types\<close>

definition DNS_RECORD_TYPES :: "(string \<times> nat) list" where
  "DNS_RECORD_TYPES =
     [(''A'', 1), (''AAAA'', 28), (''CNAME'', 5), (''MX'', 15), (''NS'', 2), (''TXT'', 16),
      (''SOA'', 6), (''PTR'', 12), (''SRV'', 33), (''CAA'', 257), (''DNSKEY'', 48),
      (''DS'', 43)]"

definition getRecordTypeName :: "nat \<Rightarrow> string" where
  "getRecordTypeName typeNum =
     (case find (\<lambda>(nm, num). num = typeNum) DNS_RECORD_TYPES of
        Some (nm, num) \<Rightarrow> nm
      | None \<Rightarrow> ''TYPE'' @ showNat typeNum)"

subsection \<open>The registry\<close>

record Resolver =
  r_name :: string
  r_region :: string
  r_endpoint :: string
  r_location :: string

text \<open>
  \<^verbatim>\<open>GLOBAL_RESOLVERS\<close>, as the list \<^verbatim>\<open>Object.entries\<close> yields: the keys in the order
  the object literal writes them.
\<close>

definition GLOBAL_RESOLVERS :: "(string \<times> Resolver) list" where
  "GLOBAL_RESOLVERS =
     [(''google_us'',
        \<lparr>r_name = ''Google Public DNS'', r_region = ''North America'',
         r_endpoint = ''https://dns.google/resolve'', r_location = ''United States''\<rparr>),
      (''cloudflare_us'',
        \<lparr>r_name = ''Cloudflare DNS'', r_region = ''North America'',
         r_endpoint = ''https://cloudflare-dns.com/dns-query'',
         r_location = ''United States (Anycast)''\<rparr>),
      (''quad9_eu'',
        \<lparr>r_name = ''Quad9 DNS'', r_region = ''Europe'',
         r_endpoint = ''https://dns.quad9.net:5053/dns-query'', r_location = ''Europe''\<rparr>),
      (''dns_sb_asia'',
        \<lparr>r_name = ''DNS.SB'', r_region = ''Asia Pacific'',
         r_endpoint = ''https://doh.dns.sb/dns-query'', r_location = ''Asia''\<rparr>),
      (''adguard'',
        \<lparr>r_name = ''AdGuard DNS'', r_region = ''Global (Anycast)'',
         r_endpoint = ''https://dns.adguard-dns.com/dns-query'', r_location = ''Anycast''\<rparr>),
      (''nextdns'',
        \<lparr>r_name = ''NextDNS'', r_region = ''Global (Anycast)'',
         r_endpoint = ''https://dns.nextdns.io/dns-query'', r_location = ''Anycast''\<rparr>),
      (''control_d'',
        \<lparr>r_name = ''Control D'', r_region = ''Global (Anycast)'',
         r_endpoint = ''https://freedns.controld.com/p0'', r_location = ''Anycast''\<rparr>)]"

subsection \<open>Responses\<close>

record DNSRecord =
  name :: string
  rtype :: nat
  typeName :: string
  TTL :: nat
  data :: string

record Question =
  q_name :: string
  q_type :: nat

record DNSResponse =
  status :: nat
  statusText :: string
  question :: "Question list"
  answer :: "DNSRecord list"
  authority :: "DNSRecord list option"
  additional :: "DNSRecord list option"
  AD :: bool
  CD :: bool
  TC :: bool
  RD :: bool
  RA :: bool

subsection \<open>The JSON payload of a DoH endpoint\<close>

text \<open>
  A property of the parsed JSON object is absent (reads as \<^verbatim>\<open>undefined\<close>), \<^verbatim>\<open>null\<close>, or
  present with a value of the type the DoH JSON convention gives it.
\<close>

datatype 'a field = Absent | Null | Present 'a

record Entry =
  e_name :: string
  e_type :: nat
  e_TTL :: nat
  e_data :: string

record DoHJson =
  jStatus :: "nat field"
  jQuestion :: "Question list field"
  jAnswer :: "Entry list field"
  jAuthority :: "Entry list field"
  jAdditional :: "Entry list field"
  jAD :: "bool field"
  jCD :: "bool field"
  jTC :: "bool field"
  jRD :: "bool field"
  jRA :: "bool field"

text \<open>\<^verbatim>\<open>v ?? d\<close>\<close>

definition orElse :: "'a field \<Rightarrow> 'a \<Rightarrow> 'a" where
  "orElse v d = (case v of Present x \<Rightarrow> x | Absent \<Rightarrow> d | Null \<Rightarrow> d)"

text \<open>\<^verbatim>\<open>v?.map(f)\<close>: \<^verbatim>\<open>undefined\<close> (\<^const>\<open>None\<close>) when \<open>v\<close> is absent or \<^verbatim>\<open>null\<close>.\<close>

definition optMap :: "'a list field \<Rightarrow> ('a \<Rightarrow> 'b) \<Rightarrow> 'b list option" where
  "optMap v f = (case v of Present xs \<Rightarrow> Some (map f xs) | Absent \<Rightarrow> None | Null \<Rightarrow> None)"

definition statusTexts :: "(nat \<times> string) list" where
  "statusTexts =
     [(0, ''NOERROR''), (1, ''FORMERR''), (2, ''SERVFAIL''), (3, ''NXDOMAIN''),
      (4, ''NOTIMP''), (5, ''REFUSED'')]"

text \<open>
  \<^verbatim>\<open>statusTexts[data.Status] ?? `UNKNOWN(${data.Status})`\<close>: the lookup is by the payload's
  own \<^verbatim>\<open>Status\<close>, not by the defaulted one.
\<close>

definition statusTextOf :: "nat field \<Rightarrow> string" where
  "statusTextOf v =
     (case v of
        Present n \<Rightarrow>
          (case map_of statusTexts n of
             Some t \<Rightarrow> t
           | None \<Rightarrow> ''UNKNOWN('' @ showNat n @ '')'')
      | Absent \<Rightarrow> ''UNKNOWN(undefined)''
      | Null \<Rightarrow> ''UNKNOWN(null)'')"

definition toRecord :: "Entry \<Rightarrow> DNSRecord" where
  "toRecord a =
     \<lparr>name = e_name a, rtype = e_type a, typeName = getRecordTypeName (e_type a),
      TTL = e_TTL a, data = e_data a\<rparr>"

text \<open>The object literal that \<^verbatim>\<open>queryDoHResolver\<close> returns for a payload.\<close>

definition parseResponse :: "DoHJson \<Rightarrow> DNSResponse" where
  "parseResponse d =
     \<lparr>status = orElse (jStatus d) 0,
      statusText = statusTextOf (jStatus d),
      question =
        (case optMap (jQuestion d) (\<lambda>q. \<lparr>q_name = q_name q, q_type = q_type q\<rparr>) of
           Some qs \<Rightarrow> qs | None \<Rightarrow> []),
      answer = (case optMap (jAnswer d) toRecord of Some rs \<Rightarrow> rs | None \<Rightarrow> []),
      authority = optMap (jAuthority d) toRecord,
      additional = optMap (jAdditional d) toRecord,
      AD = orElse (jAD d) False,
      CD = orElse (jCD d) False,
      TC = orElse (jTC d) False,
      RD = orElse (jRD d) True,
      RA = orElse (jRA d) True\<rparr>"

subsection \<open>\<^verbatim>\<open>queryDoHResolver\<close>\<close>

text \<open>
  What the network does is an input of the model. \<^verbatim>\<open>fetch\<close> either rejects with an error
  (its \<^verbatim>\<open>name\<close> and \<^verbatim>\<open>message\<close>; the name is \<^verbatim>\<open>AbortError\<close> when the timer aborted the
  request) or yields a response (\<^verbatim>\<open>ok\<close>, \<^verbatim>\<open>status\<close>, \<^verbatim>\<open>statusText\<close>) whose
  \<^verbatim>\<open>json()\<close> in turn rejects or yields the payload.
\<close>

datatype body = BodyError string string | Body DoHJson

datatype fetchResult = FetchError string string | HttpResponse bool nat string body

text \<open>The network: endpoint, domain, record type and timeout to the outcome of the request.\<close>

type_synonym network = "string \<Rightarrow> string \<Rightarrow> string \<Rightarrow> nat \<Rightarrow> fetchResult"

text \<open>The \<^verbatim>\<open>catch\<close> block: the message of the error that is thrown on.\<close>

definition rethrow :: "string \<Rightarrow> string \<Rightarrow> string" where
  "rethrow ename emessage = (if ename = ''AbortError'' then ''Request timeout'' else emessage)"

text \<open>
  The result is \<^const>\<open>Inr\<close> the response, or \<^const>\<open>Inl\<close> the message of the error
  thrown. The record type is a mnemonic (\<^const>\<open>Inl\<close>) or a number (\<^const>\<open>Inr\<close>).
\<close>

definition queryDoHResolver ::
  "network \<Rightarrow> string \<Rightarrow> string \<Rightarrow> string + nat \<Rightarrow> nat \<Rightarrow> string + DNSResponse" where
  "queryDoHResolver net endpoint domain recordType timeout =
     (let ty = (case recordType of Inl s \<Rightarrow> s | Inr n \<Rightarrow> getRecordTypeName n) in
      case net endpoint domain ty timeout of
        FetchError ename emessage \<Rightarrow> Inl (rethrow ename emessage)
      | HttpResponse ok st stText b \<Rightarrow>
          if \<not> ok then Inl (rethrow ''Error'' (''HTTP '' @ showNat st @ '': '' @ stText))
          else (case b of
                  BodyError ename emessage \<Rightarrow> Inl (rethrow ename emessage)
                | Body d \<Rightarrow> Inr (parseResponse d)))"

section \<open>Propagation analyzer\<close>

datatype Status = Success | Error | Timeout

record PropagationResult =
  resolver :: string
  region :: string
  location :: string
  pstatus :: Status
  response :: "DNSResponse option"
  latencyMs :: int
  error :: "string option"
  timestamp :: string

subsection \<open>Concurrent callbacks\<close>

text \<open>
  \<^verbatim>\<open>Promise.all(xs.map(async (x) => { ... await ...; results.push(...) }))\<close> starts the
  callbacks in list order; each runs to its first \<^verbatim>\<open>await\<close> and resumes when the awaited
  request settles, so the pushes happen in the order in which the requests settle. That
  order is an input of the model: a schedule names the keys of the callbacks in the order
  in which their requests settle; callbacks the schedule does not name settle after
  those, in list order. \<^verbatim>\<open>Promise.all\<close> resolves when every callback has finished.
\<close>

fun settle :: "'k list \<Rightarrow> ('k \<times> 'v) list \<Rightarrow> ('k \<times> 'v) list" where
  "settle [] pending = pending"
| "settle (k # ks) pending =
     filter (\<lambda>e. fst e = k) pending @ settle ks (filter (\<lambda>e. fst e \<noteq> k) pending)"

subsection \<open>\<^verbatim>\<open>checkPropagation\<close>\<close>

text \<open>
  The clock gives, for the callback of a resolver key, the latency measured when it
  finishes and the timestamp it writes.
\<close>

type_synonym clock = "string \<Rightarrow> int \<times> string"

text \<open>The body of the callback: the result pushed for one entry of the registry.\<close>

definition resultOf ::
  "network \<Rightarrow> clock \<Rightarrow> string \<Rightarrow> string \<Rightarrow> string \<times> Resolver \<Rightarrow> PropagationResult" where
  "resultOf net clk domain recordType entry =
     (case queryDoHResolver net (r_endpoint (snd entry)) domain (Inl recordType) 8000 of
        Inr resp \<Rightarrow>
          \<lparr>resolver = r_name (snd entry), region = r_region (snd entry),
           location = r_location (snd entry), pstatus = Success, response = Some resp,
           latencyMs = fst (clk (fst entry)), error = None,
           timestamp = snd (clk (fst entry))\<rparr>
      | Inl msg \<Rightarrow>
          \<lparr>resolver = r_name (snd entry), region = r_region (snd entry),
           location = r_location (snd entry),
           pstatus = (if includes_str msg ''timeout'' then Timeout else Error),
           response = None,
           latencyMs = fst (clk (fst entry)), error = Some msg,
           timestamp = snd (clk (fst entry))\<rparr>)"

definition checkPropagation ::
  "network \<Rightarrow> clock \<Rightarrow> string list \<Rightarrow> string \<Rightarrow> string \<Rightarrow> PropagationResult list" where
  "checkPropagation net clk schedule domain recordType =
     map (resultOf net clk domain recordType) (settle schedule GLOBAL_RESOLVERS)"

subsection \<open>Numbers\<close>

text \<open>
  A JavaScript number is an IEEE 754 double. The values that occur here are not negative:
  \<^verbatim>\<open>NaN\<close>, \<^verbatim>\<open>Infinity\<close> and the finite doubles, each finite double being a rational.
\<close>

datatype number = NaN | Infinity | Fin rat

text \<open>The number of binary digits of a positive integer.\<close>

function bitlen :: "int \<Rightarrow> int" where
  "bitlen a = (if a > 0 then bitlen (a div 2) + 1 else 0)"
  by pat_completeness auto
termination
  by (relation "measure nat") auto

declare bitlen.simps [simp del]

text \<open>The binary exponent of a positive rational \<open>x\<close>: the \<open>e\<close> with \<open>2\<^sup>e \<le> x < 2\<^sup>e\<^sup>+\<^sup>1\<close>.\<close>

definition ilog2 :: "rat \<Rightarrow> int" where
  "ilog2 x =
     (let (a, b) = quotient_of x;
          k = bitlen a - bitlen b
      in if 2 powi k \<le> x then k else k - 1)"

text \<open>Rounding to the nearest integer, a tie to the even one.\<close>

definition roundHalfEven :: "rat \<Rightarrow> int" where
  "roundHalfEven q =
     (let f = \<lfloor>q\<rfloor>; r = q - of_int f
      in if r < 1 / 2 then f
         else if r > 1 / 2 then f + 1
         else if even f then f else f + 1)"

text \<open>
  The double nearest to a rational \<open>x \<ge> 0\<close> (round to nearest, ties to even, 53
  significant bits). The exponent range of a double is not modelled: the quotients and
  products below lie between \<open>2\<^sup>-\<^sup>3\<^sup>2\<close> and \<open>100\<close> for every array JavaScript can
  hold (fewer than \<open>2\<^sup>3\<^sup>2\<close> elements), far from underflow and overflow.
\<close>

definition fl :: "rat \<Rightarrow> rat" where
  "fl x =
     (if x = 0 then 0
      else (let u = 2 powi (ilog2 x - 52) in of_int (roundHalfEven (x / u)) * u))"

text \<open>\<^verbatim>\<open>a.length / b.length\<close>\<close>

definition divideLengths :: "nat \<Rightarrow> nat \<Rightarrow> number" where
  "divideLengths a b =
     (if b = 0 then (if a = 0 then NaN else Infinity)
      else Fin (fl (of_nat a / of_nat b)))"

text \<open>\<^verbatim>\<open>x * 100\<close>\<close>

definition times100 :: "number \<Rightarrow> number" where
  "times100 x = (case x of NaN \<Rightarrow> NaN | Infinity \<Rightarrow> Infinity | Fin q \<Rightarrow> Fin (fl (q * 100)))"

text \<open>\<^verbatim>\<open>Math.round(x)\<close>: the integer nearest to \<open>x\<close>, a tie to the larger one.\<close>

definition Math_round :: "number \<Rightarrow> number" where
  "Math_round x =
     (case x of NaN \<Rightarrow> NaN | Infinity \<Rightarrow> Infinity | Fin q \<Rightarrow> Fin (of_int \<lfloor>q + 1 / 2\<rfloor>))"

text \<open>\<^verbatim>\<open>x >= c\<close> and \<^verbatim>\<open>x < c\<close>: every comparison with \<^verbatim>\<open>NaN\<close> is false.\<close>

definition ge :: "number \<Rightarrow> rat \<Rightarrow> bool" where
  "ge x c = (case x of NaN \<Rightarrow> False | Infinity \<Rightarrow> True | Fin q \<Rightarrow> q \<ge> c)"

definition lt :: "number \<Rightarrow> rat \<Rightarrow> bool" where
  "lt x c = (case x of NaN \<Rightarrow> False | Infinity \<Rightarrow> False | Fin q \<Rightarrow> q < c)"

text \<open>A number in a template literal; the finite numbers printed here are integers.\<close>

definition showNumber :: "number \<Rightarrow> string" where
  "showNumber x =
     (case x of NaN \<Rightarrow> ''NaN'' | Infinity \<Rightarrow> ''Infinity'' | Fin q \<Rightarrow> showInt \<lfloor>q\<rfloor>)"

subsection \<open>\<^verbatim>\<open>analyzePropagation\<close>\<close>

record PropagationAnalysis =
  propagated :: bool
  percentage :: number
  consistentRecords :: bool
  summary :: string
  ipAddresses :: "string list"
  discrepancies :: "string list"

text \<open>
  One element of \<^verbatim>\<open>ipSets\<close>: the data of the A and AAAA answers, sorted by the default
  \<^verbatim>\<open>sort()\<close> (ascending code units).
\<close>

definition ipSet :: "DNSResponse \<Rightarrow> string list" where
  "ipSet resp =
     sort (map data (filter (\<lambda>a. typeName a = ''A'' \<or> typeName a = ''AAAA'') (answer resp)))"

text \<open>\<^verbatim>\<open>[...new Set(xs)]\<close>: the elements in the order of their first occurrence.\<close>

fun unique :: "'a list \<Rightarrow> 'a list" where
  "unique [] = []"
| "unique (x # xs) = x # unique (filter (\<lambda>y. y \<noteq> x) xs)"

text \<open>
  The body of the consistency loop at index \<open>i\<close>, on the pair of \<^verbatim>\<open>consistentRecords\<close>
  and \<^verbatim>\<open>discrepancies\<close>. \<^verbatim>\<open>JSON.stringify\<close> is injective on arrays of strings, so the
  comparison of the two serializations is the comparison of the two arrays.
\<close>

definition discrepancyText :: "string \<Rightarrow> string list \<Rightarrow> string" where
  "discrepancyText nm ips = nm @ '' returned different IPs: '' @ join '', '' ips"

definition checkIndex ::
  "PropagationResult list \<Rightarrow> string list list \<Rightarrow> nat \<Rightarrow> bool \<times> string list \<Rightarrow>
   bool \<times> string list" where
  "checkIndex successful ipSets i acc =
     (if ipSets ! i \<noteq> ipSets ! 0 then
        (False, snd acc @ [discrepancyText (resolver (successful ! i)) (ipSets ! i)])
      else acc)"

definition summaryText :: "bool \<Rightarrow> number \<Rightarrow> string" where
  "summaryText prop pct =
     (if prop then
        ''DNS records have propagated to '' @ showNumber pct @
        ''% of global resolvers with consistent results.''
      else if lt pct 70 then
        ''DNS records have only propagated to '' @ showNumber pct @
        ''% of global resolvers. Propagation may still be in progress.''
      else
        ''DNS records show inconsistencies across global resolvers. '' @
        ''This may indicate ongoing propagation or configuration issues.'')"

text \<open>
  The indices the loop reads are in range: \<open>1 \<le> i < length ipSets\<close>, and \<^verbatim>\<open>ipSets\<close> is no
  longer than \<^verbatim>\<open>successful\<close>, of which it is a filtered image (\<open>length_ipSetsOf\<close> below).
\<close>

definition analyzePropagation :: "PropagationResult list \<Rightarrow> PropagationAnalysis" where
  "analyzePropagation results =
     (let successful = filter (\<lambda>r. pstatus r = Success) results;
          pct = Math_round (times100 (divideLengths (length successful) (length results)));
          ipSets = map ipSet (List.map_filter response successful);
          allIPs = unique (concat ipSets);
          (consistent, discr) =
            (if length ipSets > 1
             then fold (checkIndex successful ipSets) [1 ..< length ipSets] (True, [])
             else (True, []));
          prop = (ge pct 70 \<and> consistent)
      in \<lparr>propagated = prop, percentage = pct, consistentRecords = consistent,
          summary = summaryText prop pct, ipAddresses = allIPs, discrepancies = discr\<rparr>)"

section \<open>Zone health engine\<close>

datatype Severity = Critical | Warning | Info

datatype Category = CatSOA | CatNS | CatA | CatMX | CatCNAME | CatTXT | CatGeneral

record ZoneHealthIssue =
  severity :: Severity
  category :: Category
  message :: string
  recommendation :: "string option"

record Summary =
  hasSOA :: bool
  hasNS :: bool
  hasA :: bool
  hasMX :: bool
  hasSPF :: bool
  hasDKIM :: bool
  hasDMARC :: bool
  nsCount :: nat
  mxCount :: nat
  ttlConsistent :: bool

datatype Grade = GradeA | GradeB | GradeC | GradeD | GradeF

subsection \<open>\<^verbatim>\<open>validateA\<close>\<close>

text \<open>The filter predicate of \<^verbatim>\<open>privateIPs\<close>, prefix by prefix as the source lists them.\<close>

definition isPrivateIP :: "string \<Rightarrow> bool" where
  "isPrivateIP ip =
     (startsWith ip ''10.'' \<or>
      startsWith ip ''172.16.'' \<or>
      startsWith ip ''172.17.'' \<or>
      startsWith ip ''172.18.'' \<or>
      startsWith ip ''172.19.'' \<or>
      startsWith ip ''172.2'' \<or>
      startsWith ip ''172.30.'' \<or>
      startsWith ip ''172.31.'' \<or>
      startsWith ip ''192.168.'' \<or>
      startsWith ip ''127.'')"

definition validateA :: "DNSRecord list \<Rightarrow> ZoneHealthIssue list" where
  "validateA records =
     (if records = [] then
        [\<lparr>severity = Info, category = CatA,
          message = ''No A records found for root domain'',
          recommendation =
            Some ''If this domain should resolve to a web server, add an A record.''\<rparr>]
      else
        (let privateIPs = filter (\<lambda>r. isPrivateIP (data r)) records;
             lowTTL = filter (\<lambda>r. TTL r < 60) records
         in (if length privateIPs > 0 then
               [\<lparr>severity = Critical, category = CatA,
                 message = ''A record(s) point to private IP address(es): '' @
                           join '', '' (map data privateIPs),
                 recommendation =
                   Some (''Replace with public IP addresses. '' @
                         ''Private IPs are not reachable from the internet.'')\<rparr>]
             else []) @
            (case lowTTL of
               [] \<Rightarrow> []
             | l # _ \<Rightarrow>
               [\<lparr>severity = Info, category = CatA,
                 message = ''Very low TTL ('' @ showNat (TTL l) @ ''s) on A records'',
                 recommendation =
                   Some (''Low TTL increases DNS load. '' @
                         ''Use 300+ seconds unless frequent changes expected.'')\<rparr>])))"

text \<open>
  The private ranges as the specification words them: \<open>10.\<close>, \<open>172.16.\<close> through
  \<open>172.31.\<close>, \<open>192.168.\<close> and \<open>127.\<close>. This predicate follows the specification, to be
  compared with \<^const>\<open>isPrivateIP\<close>, which follows the source.
\<close>

definition specPrivatePrefixes :: "string list" where
  "specPrivatePrefixes =
     [''10.'', ''172.16.'', ''172.17.'', ''172.18.'', ''172.19.'', ''172.20.'', ''172.21.'',
      ''172.22.'', ''172.23.'', ''172.24.'', ''172.25.'', ''172.26.'', ''172.27.'',
      ''172.28.'', ''172.29.'', ''172.30.'', ''172.31.'', ''192.168.'', ''127.'']"

definition specPrivateRange :: "string \<Rightarrow> bool" where
  "specPrivateRange ip = list_ex (startsWith ip) specPrivatePrefixes"

definition criticalA :: "ZoneHealthIssue \<Rightarrow> bool" where
  "criticalA i = (severity i = Critical \<and> category i = CatA)"

subsection \<open>\<^verbatim>\<open>calculateScore\<close> and \<^verbatim>\<open>scoreToGrade\<close>\<close>

text \<open>
  The score is a number that stays an integer, of a magnitude at which doubles are exact;
  it is modelled as an integer. The body of the loop over the issues is the \<^verbatim>\<open>switch\<close>
  on the severity.
\<close>

definition deduct :: "int \<Rightarrow> ZoneHealthIssue \<Rightarrow> int" where
  "deduct score issue =
     (case severity issue of
        Critical \<Rightarrow> score - 20
      | Warning \<Rightarrow> score - 10
      | Info \<Rightarrow> score - 2)"

definition calculateScore :: "ZoneHealthIssue list \<Rightarrow> Summary \<Rightarrow> int" where
  "calculateScore issues summ =
     (let score = foldl deduct 100 issues;
          score = (if nsCount summ \<ge> 2 then score + 5 else score);
          score = (if hasSPF summ then score + 5 else score);
          score = (if hasDMARC summ then score + 5 else score);
          score = (if mxCount summ \<ge> 2 then score + 3 else score)
      in max 0 (min 100 score))"

definition scoreToGrade :: "int \<Rightarrow> Grade" where
  "scoreToGrade score =
     (if score \<ge> 90 then GradeA
      else if score \<ge> 80 then GradeB
      else if score \<ge> 70 then GradeC
      else if score \<ge> 60 then GradeD
      else GradeF)"

text \<open>The number of issues of one severity.\<close>

definition countSeverity :: "Severity \<Rightarrow> ZoneHealthIssue list \<Rightarrow> int" where
  "countSeverity s issues = int (length (filter (\<lambda>i. severity i = s) issues))"

section \<open>Subdomain discovery pipeline\<close>

record SSLDetails =
  issuer :: "string option"
  validFrom :: "string option"
  validTo :: "string option"
  expired :: "bool option"

record SubdomainResult =
  subdomain :: string
  fullDomain :: string
  source :: string
  hasSSL :: bool
  sslDetails :: "SSLDetails option"
  resolves :: bool
  sub_ipAddresses :: "string list option"

record Sources =
  certificateTransparency :: nat
  commonSubdomains :: nat

record SubdomainEnumerationResult =
  e_domain :: string
  e_timestamp :: string
  totalFound :: nat
  subdomains :: "SubdomainResult list"
  sources :: Sources

record Options =
  checkSSL :: bool
  checkResolution :: bool
  includeCommon :: bool
  maxResults :: int

text \<open>The defaults of the destructured \<^verbatim>\<open>options\<close>.\<close>

definition defaultOptions :: Options where
  "defaultOptions =
     \<lparr>checkSSL = True, checkResolution = True, includeCommon = True, maxResults = 100\<rparr>"

definition COMMON_SUBDOMAINS :: "string list" where
  "COMMON_SUBDOMAINS =
     [''www'', ''mail'', ''webmail'', ''ftp'', ''smtp'', ''pop'', ''imap'',
      ''admin'', ''portal'', ''api'', ''dev'', ''staging'', ''test'', ''demo'',
      ''blog'', ''shop'', ''store'', ''cdn'', ''static'', ''assets'', ''images'',
      ''app'', ''mobile'', ''m'', ''vpn'', ''remote'', ''secure'', ''login'',
      ''auth'', ''sso'', ''id'', ''accounts'', ''support'', ''help'', ''docs'',
      ''ns1'', ''ns2'', ''dns'', ''dns1'', ''dns2'', ''mx'', ''mx1'', ''mx2'',
      ''cpanel'', ''whm'', ''plesk'', ''server'', ''host'', ''cloud'',
      ''status'', ''monitor'', ''metrics'', ''analytics'', ''tracking'',
      ''git'', ''gitlab'', ''github'', ''bitbucket'', ''jenkins'', ''ci'',
      ''db'', ''database'', ''mysql'', ''postgres'', ''redis'', ''mongo'',
      ''backup'', ''bak'', ''old'', ''new'', ''beta'', ''alpha'', ''stage'',
      ''internal'', ''intranet'', ''extranet'', ''private'', ''public'']"

subsection \<open>The world outside\<close>

text \<open>
  The outcome of the HEAD request of \<^verbatim>\<open>checkSSLCertificate\<close>: a response, or an error
  with its \<^verbatim>\<open>code\<close> (if it has one).
\<close>

datatype tlsOutcome = TlsResponded | TlsFailed "string option"

text \<open>
  Everything \<^verbatim>\<open>enumerateSubdomains\<close> reads from outside: the network, the TLS outcomes,
  the list that \<^verbatim>\<open>queryCertificateTransparency\<close> returns for a domain, the order in
  which the concurrent wordlist probes finish, the comparison that
  \<^verbatim>\<open>String.prototype.localeCompare\<close> performs on the host (negative, zero or
  positive), and the time.
\<close>

record World =
  w_net :: network
  w_tls :: "string \<Rightarrow> tlsOutcome"
  w_ct :: "string \<Rightarrow> string list"
  w_schedule :: "string list"
  w_localeCompare :: "string \<Rightarrow> string \<Rightarrow> int"
  w_now :: string

subsection \<open>Probes\<close>

text \<open>\<^verbatim>\<open>GLOBAL_RESOLVERS.cloudflare_us.endpoint\<close>\<close>

definition cloudflareEndpoint :: string where
  "cloudflareEndpoint =
     (case map_of GLOBAL_RESOLVERS ''cloudflare_us'' of Some r \<Rightarrow> r_endpoint r | None \<Rightarrow> [])"

definition checkSubdomainResolution :: "network \<Rightarrow> string \<Rightarrow> bool \<times> string list" where
  "checkSubdomainResolution net full =
     (case queryDoHResolver net cloudflareEndpoint full (Inl ''A'') 3000 of
        Inr resp \<Rightarrow>
          (let ips = map data (filter (\<lambda>r. typeName r = ''A'') (answer resp))
           in (length ips > 0, ips))
      | Inl msg \<Rightarrow> (False, []))"

definition noDetails :: SSLDetails where
  "noDetails = \<lparr>issuer = None, validFrom = None, validTo = None, expired = None\<rparr>"

definition checkSSLCertificate ::
  "(string \<Rightarrow> tlsOutcome) \<Rightarrow> string \<Rightarrow> bool \<times> SSLDetails option" where
  "checkSSLCertificate tls full =
     (case tls full of
        TlsResponded \<Rightarrow> (True, Some noDetails)
      | TlsFailed code \<Rightarrow>
          if code = Some ''UNABLE_TO_VERIFY_LEAF_SIGNATURE'' \<or>
             code = Some ''CERT_HAS_EXPIRED'' \<or>
             code = Some ''ERR_TLS_CERT_ALTNAME_INVALID''
          then (True, Some (noDetails\<lparr>expired := Some (code = Some ''CERT_HAS_EXPIRED'')\<rparr>))
          else (False, None))"

subsection \<open>The certificate transparency loop\<close>

text \<open>The loop state: \<^verbatim>\<open>subdomains\<close>, \<^verbatim>\<open>seenDomains\<close> and the counter of the phase.\<close>

type_synonym enumState = "SubdomainResult list \<times> string set \<times> nat"

definition ctResult :: "World \<Rightarrow> string \<Rightarrow> Options \<Rightarrow> string \<Rightarrow> SubdomainResult" where
  "ctResult w domain opts sub =
     (let res =
            \<lparr>subdomain = (if sub = domain then ''@'' else replaceFirst sub (''.'' @ domain)),
             fullDomain = sub, source = ''Certificate Transparency'', hasSSL = False,
             sslDetails = None, resolves = False, sub_ipAddresses = None\<rparr>;
          res =
            (if checkResolution opts then
               (let resolution = checkSubdomainResolution (w_net w) sub
                in res\<lparr>resolves := fst resolution, sub_ipAddresses := Some (snd resolution)\<rparr>)
             else res);
          res =
            (if checkSSL opts \<and> resolves res then
               (let ssl = checkSSLCertificate (w_tls w) sub
                in res\<lparr>hasSSL := fst ssl, sslDetails := snd ssl\<rparr>)
             else res)
      in res)"

definition ctStep :: "World \<Rightarrow> string \<Rightarrow> Options \<Rightarrow> string \<Rightarrow> enumState \<Rightarrow> enumState" where
  "ctStep w domain opts sub st =
     (case st of (subs, seen, ctCount) \<Rightarrow>
        if sub \<in> seen \<or> int (length subs) \<ge> maxResults opts then st
        else (subs @ [ctResult w domain opts sub], insert sub seen, ctCount + 1))"

subsection \<open>The wordlist phase\<close>

text \<open>
  The part of each callback before its first \<^verbatim>\<open>await\<close>, run for the candidates in list
  order: a candidate whose full name was seen is dropped, the others are marked as seen.
  The result is the list of the labels that go on to be probed, with their full names.
\<close>

definition admitStep ::
  "string \<Rightarrow> string \<Rightarrow> (string \<times> string) list \<times> string set \<Rightarrow>
   (string \<times> string) list \<times> string set" where
  "admitStep domain sub st =
     (case st of (admitted, seen) \<Rightarrow>
        (let full = sub @ ''.'' @ domain
         in if full \<in> seen then st else (admitted @ [(sub, full)], insert full seen)))"

text \<open>The rest of a callback: the probe, and the result it pushes if the name resolves.\<close>

definition commonResult ::
  "World \<Rightarrow> Options \<Rightarrow> string \<times> string \<Rightarrow> SubdomainResult option" where
  "commonResult w opts e =
     (let resolution = checkSubdomainResolution (w_net w) (snd e)
      in if fst resolution then
           (let res =
                  \<lparr>subdomain = fst e, fullDomain = snd e, source = ''Common Subdomain List'',
                   hasSSL = False, sslDetails = None, resolves = True,
                   sub_ipAddresses = Some (snd resolution)\<rparr>
            in Some (if checkSSL opts then
                       (let ssl = checkSSLCertificate (w_tls w) (snd e)
                        in res\<lparr>hasSSL := fst ssl, sslDetails := snd ssl\<rparr>)
                     else res))
         else None)"

text \<open>
  The phase: the first \<^verbatim>\<open>maxResults - subdomains.length\<close> words are the candidates; the
  callbacks of the admitted ones push their results in the order in which they finish.
\<close>

definition commonPhase :: "World \<Rightarrow> string \<Rightarrow> Options \<Rightarrow> enumState \<Rightarrow> enumState" where
  "commonPhase w domain opts st =
     (case st of (subs, seen, ctCount) \<Rightarrow>
        if includeCommon opts \<and> int (length subs) < maxResults opts then
          (let candidates = take (nat (maxResults opts - int (length subs))) COMMON_SUBDOMAINS;
               (admitted, seen') = fold (admitStep domain) candidates ([], seen);
               pushed = List.map_filter (commonResult w opts) (settle (w_schedule w) admitted)
           in (subs @ pushed, seen', length pushed))
        else (subs, seen, 0))"

subsection \<open>Sorting\<close>

text \<open>
  \<^verbatim>\<open>Array.prototype.sort\<close> with a comparison function is stable and, for a consistent
  comparison, yields the elements in ascending order; that is the result of inserting
  each element, from the last to the first, before the first element that is not smaller.
\<close>

fun insertBy :: "('a \<Rightarrow> 'a \<Rightarrow> int) \<Rightarrow> 'a \<Rightarrow> 'a list \<Rightarrow> 'a list" where
  "insertBy cmp x [] = [x]"
| "insertBy cmp x (y # ys) = (if cmp x y \<le> 0 then x # y # ys else y # insertBy cmp x ys)"

definition sortBy :: "('a \<Rightarrow> 'a \<Rightarrow> int) \<Rightarrow> 'a list \<Rightarrow> 'a list" where
  "sortBy cmp xs = foldr (insertBy cmp) xs []"

text \<open>\<^verbatim>\<open>(a, b) => a.subdomain.localeCompare(b.subdomain)\<close>\<close>

definition bySubdomain :: "World \<Rightarrow> SubdomainResult \<Rightarrow> SubdomainResult \<Rightarrow> int" where
  "bySubdomain w a b = w_localeCompare w (subdomain a) (subdomain b)"

subsection \<open>\<^verbatim>\<open>enumerateSubdomains\<close>\<close>

definition enumerateSubdomains ::
  "World \<Rightarrow> string \<Rightarrow> Options \<Rightarrow> SubdomainEnumerationResult" where
  "enumerateSubdomains w domain opts =
     (let afterCT = fold (ctStep w domain opts) (w_ct w domain) ([], {}, 0);
          ctCount = snd (snd afterCT);
          afterCommon = commonPhase w domain opts afterCT;
          commonCount = snd (snd afterCommon);
          sorted = sortBy (bySubdomain w) (fst afterCommon)
      in \<lparr>e_domain = domain, e_timestamp = w_now w, totalFound = length sorted,
          subdomains = sorted,
          sources = \<lparr>certificateTransparency = ctCount, commonSubdomains = commonCount\<rparr>\<rparr>)"

section \<open>Notions used in the statements\<close>

text \<open>The resolver names in registry order, and the name registered under a key.\<close>

definition registryNames :: "string list" where
  "registryNames =
     [''Google Public DNS'', ''Cloudflare DNS'', ''Quad9 DNS'', ''DNS.SB'', ''AdGuard DNS'',
      ''NextDNS'', ''Control D'']"

definition nameOfKey :: "string \<Rightarrow> string" where
  "nameOfKey key = (case map_of GLOBAL_RESOLVERS key of Some r \<Rightarrow> r_name r | None \<Rightarrow> [])"

text \<open>The successful results, as \<^verbatim>\<open>analyzePropagation\<close> selects them.\<close>

definition successfulOf :: "PropagationResult list \<Rightarrow> PropagationResult list" where
  "successfulOf results = filter (\<lambda>r. pstatus r = Success) results"

text \<open>The sorted A/AAAA IP list that a result reports (none without a response).\<close>

definition ipsOf :: "PropagationResult \<Rightarrow> string list" where
  "ipsOf r = (case response r of Some resp \<Rightarrow> ipSet resp | None \<Rightarrow> [])"

text \<open>The list \<^verbatim>\<open>ipSets\<close> that \<^verbatim>\<open>analyzePropagation\<close> builds.\<close>

definition ipSetsOf :: "PropagationResult list \<Rightarrow> string list list" where
  "ipSetsOf results = map ipSet (List.map_filter response (successfulOf results))"

text \<open>A percentage: a number from 0 to 100.\<close>

definition inPercentRange :: "number \<Rightarrow> bool" where
  "inPercentRange x = (case x of Fin q \<Rightarrow> 0 \<le> q \<and> q \<le> 100 | NaN \<Rightarrow> False | Infinity \<Rightarrow> False)"

text \<open>
  The percentage as the specification words it, \<open>round(100 * successCount /
  totalResolverCount)\<close>, in exact arithmetic: the nearest integer, a tie to the larger
  one (as \<^verbatim>\<open>Math.round\<close> rounds). This follows the specification, to be compared with
  the percentage that \<^const>\<open>analyzePropagation\<close> computes in doubles.
\<close>

definition specPercentage :: "nat \<Rightarrow> nat \<Rightarrow> int" where
  "specPercentage s n = \<lfloor>100 * of_nat s / of_nat n + 1 / 2 :: rat\<rfloor>"

text \<open>The exact percentage lies halfway between two integers.\<close>

definition tie :: "nat \<Rightarrow> nat \<Rightarrow> bool" where
  "tie s n = (frac (100 * of_nat s / of_nat n :: rat) = 1 / 2)"

text \<open>
  The full domain names that the wordlist phase of \<^verbatim>\<open>enumerateSubdomains\<close> builds in a run
  (\<^verbatim>\<open>`${sub}.${domain}`\<close> for each word of the slice), in wordlist order; none when the
  phase does not run, which is when \<^verbatim>\<open>includeCommon\<close> is off or the certificate
  transparency phase has filled \<^verbatim>\<open>maxResults\<close>.
\<close>

definition wordlistNames :: "World \<Rightarrow> string \<Rightarrow> Options \<Rightarrow> string list" where
  "wordlistNames w domain opts =
     (case fold (ctStep w domain opts) (w_ct w domain) ([], {}, 0) of
        (subs, seen, ctCount) \<Rightarrow>
          if includeCommon opts \<and> int (length subs) < maxResults opts then
            map (\<lambda>sub. sub @ ''.'' @ domain)
              (take (nat (maxResults opts - int (length subs))) COMMON_SUBDOMAINS)
          else [])"

text \<open>Sample values: an A record, a response, a successful and a failed result.\<close>

definition aRecord :: "string \<Rightarrow> DNSRecord" where
  "aRecord ip = \<lparr>name = ''example.com'', rtype = 1, typeName = ''A'', TTL = 300, data = ip\<rparr>"

definition answering :: "string list \<Rightarrow> DNSResponse" where
  "answering ips =
     \<lparr>status = 0, statusText = ''NOERROR'', question = [], answer = map aRecord ips,
      authority = None, additional = None,
      AD = False, CD = False, TC = False, RD = True, RA = True\<rparr>"

definition succeeded :: "string \<Rightarrow> string list \<Rightarrow> PropagationResult" where
  "succeeded nm ips =
     \<lparr>resolver = nm, region = ''Global (Anycast)'', location = ''Anycast'',
      pstatus = Success, response = Some (answering ips), latencyMs = 20, error = None,
      timestamp = ''2026-01-25T00:00:00.000Z''\<rparr>"

definition failed :: "string \<Rightarrow> PropagationResult" where
  "failed nm =
     \<lparr>resolver = nm, region = ''Global (Anycast)'', location = ''Anycast'',
      pstatus = Error, response = None, latencyMs = 20,
      error = Some ''HTTP 500: Internal Server Error'',
      timestamp = ''2026-01-25T00:00:00.000Z''\<rparr>"

text \<open>Three answers and a failure; the third successful resolver deviates.\<close>

definition exMixed :: "PropagationResult list" where
  "exMixed =
     [succeeded ''Google Public DNS'' [''1.1.1.1''],
      failed ''Quad9 DNS'',
      succeeded ''Cloudflare DNS'' [''2.2.2.2''],
      succeeded ''DNS.SB'' [''1.1.1.1'']]"

text \<open>Three answers; the first resolver is the one that deviates.\<close>

definition exFirstDeviates :: "PropagationResult list" where
  "exFirstDeviates =
     [succeeded ''Google Public DNS'' [''1.1.1.1''],
      succeeded ''Cloudflare DNS'' [''2.2.2.2''],
      succeeded ''Quad9 DNS'' [''2.2.2.2'']]"

text \<open>
  A payload with every property absent, a network on which every request is answered
  with it, and a clock.
\<close>

definition emptyPayload :: DoHJson where
  "emptyPayload =
     \<lparr>jStatus = Absent, jQuestion = Absent, jAnswer = Absent, jAuthority = Absent,
      jAdditional = Absent, jAD = Absent, jCD = Absent, jTC = Absent, jRD = Absent,
      jRA = Absent\<rparr>"

definition exampleNet :: network where
  "exampleNet endpoint domain ty timeout = HttpResponse True 200 ''OK'' (Body emptyPayload)"

definition exampleClock :: clock where
  "exampleClock key = (20, ''2026-01-25T00:00:00.000Z'')"

text \<open>
  Comparisons that \<^verbatim>\<open>localeCompare\<close> can stand for. The ordinal one compares code units.
  A collation compares by weights that put punctuation and symbols before the digits and
  the digits before the letters, as the root collation of the Unicode Collation Algorithm
  does; \<open>collate\<close> is such a comparison on ASCII.
\<close>

definition ordinalCompare :: "string \<Rightarrow> string \<Rightarrow> int" where
  "ordinalCompare a b = (if a < b then - 1 else if a = b then 0 else 1)"

definition collationWeight :: "char \<Rightarrow> nat" where
  "collationWeight c =
     (let n = of_char c
      in if 48 \<le> n \<and> n \<le> 57 then 1000 + n
         else if (65 \<le> n \<and> n \<le> 90) \<or> (97 \<le> n \<and> n \<le> 122) then 2000 + n
         else n)"

definition collate :: "string \<Rightarrow> string \<Rightarrow> int" where
  "collate a b =
     (let ka = map collationWeight a; kb = map collationWeight b
      in if ka < kb then - 1 else if ka = kb then 0 else 1)"

text \<open>
  Sample worlds: a network on which no name resolves and one on which every name does;
  a world whose log knows two names of \<open>example.com\<close>, and a world that collates, whose
  log knows the apex and a label that starts with a digit.
\<close>

definition deadNet :: network where
  "deadNet endpoint domain ty timeout = FetchError ''FetchError'' ''getaddrinfo ENOTFOUND''"

definition answeringNet :: network where
  "answeringNet endpoint domain ty timeout =
     HttpResponse True 200 ''OK''
       (Body (emptyPayload\<lparr>jAnswer := Present
          [\<lparr>e_name = domain, e_type = 1, e_TTL = 300, e_data = ''93.184.216.34''\<rparr>]\<rparr>))"

definition exWorld :: World where
  "exWorld =
     \<lparr>w_net = answeringNet, w_tls = (\<lambda>d. TlsResponded),
      w_ct = (\<lambda>d. [''a.example.com'', ''www.example.com'']),
      w_schedule = [], w_localeCompare = ordinalCompare, w_now = ''2026-01-25T00:00:00.000Z''\<rparr>"

definition collatingWorld :: World where
  "collatingWorld =
     \<lparr>w_net = deadNet, w_tls = (\<lambda>d. TlsFailed None),
      w_ct = (\<lambda>d. [''example.com'', ''1.example.com'']),
      w_schedule = [], w_localeCompare = collate, w_now = ''2026-01-25T00:00:00.000Z''\<rparr>"

text \<open>Three successful results, the second without its response.\<close>

definition exMissingResponse :: "PropagationResult list" where
  "exMissingResponse =
     [succeeded ''Google Public DNS'' [''1.1.1.1''],
      (succeeded ''Cloudflare DNS'' [])\<lparr>response := None\<rparr>,
      succeeded ''Quad9 DNS'' [''2.2.2.2'']]"

text \<open>Seven results with five successes, and forty results with twenty-three.\<close>

definition exFiveOfSeven :: "PropagationResult list" where
  "exFiveOfSeven =
     replicate 5 (succeeded ''Quad9 DNS'' [''93.184.216.34'']) @ replicate 2 (failed ''Quad9 DNS'')"

definition exTwentyThreeOfForty :: "PropagationResult list" where
  "exTwentyThreeOfForty =
     replicate 23 (succeeded ''Quad9 DNS'' [''93.184.216.34'']) @
     replicate 17 (failed ''Quad9 DNS'')"

section \<open>Zone health: results\<close>

lemma foldl_deduct:
  "foldl deduct acc issues =
     acc - 20 * countSeverity Critical issues - 10 * countSeverity Warning issues
         - 2 * countSeverity Info issues"
proof (induction issues arbitrary: acc)
  case Nil
  show ?case by (simp add: countSeverity_def)
next
  case (Cons i issues)
  have "foldl deduct acc (i # issues) = foldl deduct (deduct acc i) issues"
    by simp
  also have "\<dots> = deduct acc i - 20 * countSeverity Critical issues
      - 10 * countSeverity Warning issues - 2 * countSeverity Info issues"
    by (rule Cons.IH)
  also have "\<dots> = acc - 20 * countSeverity Critical (i # issues)
      - 10 * countSeverity Warning (i # issues) - 2 * countSeverity Info (i # issues)"
    by (cases "severity i") (simp_all add: deduct_def countSeverity_def)
  finally show ?case .
qed

text \<open>
  C5. The score is 100 minus 20 per critical issue, 10 per warning and 2 per info issue,
  plus 5 if \<open>nsCount \<ge> 2\<close>, 5 if SPF is present, 5 if the DMARC flag is set and 3 if
  \<open>mxCount \<ge> 2\<close>, clamped to the interval from 0 to 100; the grade is A from 90, B from
  80, C from 70, D from 60 and F below.
\<close>

theorem calculateScore_formula:
  "calculateScore issues summ =
     max 0 (min 100
       (100 - 20 * countSeverity Critical issues - 10 * countSeverity Warning issues
            - 2 * countSeverity Info issues
            + (if nsCount summ \<ge> 2 then 5 else 0)
            + (if hasSPF summ then 5 else 0)
            + (if hasDMARC summ then 5 else 0)
            + (if mxCount summ \<ge> 2 then 3 else 0)))
   \<and> 0 \<le> calculateScore issues summ \<and> calculateScore issues summ \<le> 100
   \<and> scoreToGrade score =
       (if score \<ge> 90 then GradeA else if score \<ge> 80 then GradeB
        else if score \<ge> 70 then GradeC else if score \<ge> 60 then GradeD else GradeF)"
proof -
  have loop: "foldl deduct 100 issues =
      100 - 20 * countSeverity Critical issues - 10 * countSeverity Warning issues
          - 2 * countSeverity Info issues"
    by (rule foldl_deduct)
  have score: "calculateScore issues summ =
      max 0 (min 100
        (100 - 20 * countSeverity Critical issues - 10 * countSeverity Warning issues
             - 2 * countSeverity Info issues
             + (if nsCount summ \<ge> 2 then 5 else 0)
             + (if hasSPF summ then 5 else 0)
             + (if hasDMARC summ then 5 else 0)
             + (if mxCount summ \<ge> 2 then 3 else 0)))"
    unfolding calculateScore_def Let_def loop by (simp add: algebra_simps)
  have lower: "0 \<le> calculateScore issues summ"
    and upper: "calculateScore issues summ \<le> 100"
    by (simp_all add: calculateScore_def Let_def)
  have grade: "scoreToGrade score =
      (if score \<ge> 90 then GradeA else if score \<ge> 80 then GradeB
       else if score \<ge> 70 then GradeC else if score \<ge> 60 then GradeD else GradeF)"
    by (simp add: scoreToGrade_def)
  show ?thesis by (intro conjI score lower upper grade)
qed

lemma startsWith_append: "startsWith s (p @ q) \<Longrightarrow> startsWith s p"
  by (induction s p rule: startsWith.induct) auto

lemma startsWith_172_2x:
  "startsWith ip (CHR ''1'' # CHR ''7'' # CHR ''2'' # CHR ''.'' # CHR ''2'' # r) \<Longrightarrow>
   startsWith ip ''172.2''"
  using startsWith_append[of ip "''172.2''" r] by simp

lemma specPrivateRange_isPrivateIP:
  assumes "specPrivateRange ip"
  shows "isPrivateIP ip"
proof -
  have "list_ex (startsWith ip) specPrivatePrefixes"
    using assms by (simp only: specPrivateRange_def)
  then have
    "startsWith ip ''10.'' \<or> startsWith ip ''172.16.'' \<or> startsWith ip ''172.17.'' \<or>
     startsWith ip ''172.18.'' \<or> startsWith ip ''172.19.'' \<or> startsWith ip ''172.2'' \<or>
     startsWith ip ''172.30.'' \<or> startsWith ip ''172.31.'' \<or> startsWith ip ''192.168.'' \<or>
     startsWith ip ''127.''"
    unfolding specPrivatePrefixes_def list_ex_Cons_iff list_ex_Nil_iff
    by (elim disjE) (simp_all only: startsWith_172_2x simp_thms)
  then show ?thesis by (simp only: isPrivateIP_def)
qed

lemma criticalA_validateA:
  "list_ex criticalA (validateA records) \<longleftrightarrow> list_ex (\<lambda>r. isPrivateIP (data r)) records"
proof (cases "records = []")
  case True
  then show ?thesis by (simp add: validateA_def criticalA_def)
next
  case False
  define P where "P = filter (\<lambda>r. isPrivateIP (data r)) records"
  define L where "L = filter (\<lambda>r. TTL r < 60) records"
  obtain crit low where v: "validateA records =
      (if length P > 0 then [crit] else []) @ (case L of [] \<Rightarrow> [] | l # x \<Rightarrow> [low l])"
    and crit: "criticalA crit" and low: "\<And>l. \<not> criticalA (low l)"
    using False unfolding validateA_def Let_def P_def L_def criticalA_def
    by (simp only: if_False) fastforce
  have "list_ex criticalA (validateA records) \<longleftrightarrow> P \<noteq> []"
    unfolding v using crit low by (cases L) auto
  also have "\<dots> \<longleftrightarrow> list_ex (\<lambda>r. isPrivateIP (data r)) records"
    unfolding P_def by (simp add: filter_empty_conv list_ex_iff)
  finally show ?thesis .
qed

text \<open>
  C3 at a public address: \<open>172.200.1.1\<close> is outside the private ranges, and the check
  emits the critical A issue for it, because the prefix \<open>172.2\<close> of the source also
  matches \<open>172.2.\<close> and \<open>172.200.\<close> to \<open>172.255.\<close>.
\<close>

theorem validateA_flags_public_address:
  "\<not> specPrivateRange ''172.200.1.1'' \<and>
   validateA [aRecord ''172.200.1.1''] =
     [\<lparr>severity = Critical, category = CatA,
       message = ''A record(s) point to private IP address(es): 172.200.1.1'',
       recommendation =
         Some ''Replace with public IP addresses. Private IPs are not reachable from the internet.''\<rparr>]"
  by (simp add: specPrivateRange_def specPrivatePrefixes_def validateA_def isPrivateIP_def
      aRecord_def Let_def)

section \<open>DoH client: results\<close>

lemma statusText_without_Status:
  "status (parseResponse emptyPayload) = 0 \<and>
   statusText (parseResponse emptyPayload) = ''UNKNOWN(undefined)''"
  by (simp add: emptyPayload_def parseResponse_def orElse_def statusTextOf_def)

text \<open>
  C4, as the source has it. For every payload: an absent \<^verbatim>\<open>Status\<close> gives status 0; an
  absent question or answer list gives the empty list; the flags AD, CD and TC default to
  false, the flags RD and RA default to true; and a response that is ok is parsed without
  an error.
\<close>

theorem parseResponse_defaults:
  "(jStatus d = Absent \<longrightarrow> status (parseResponse d) = 0) \<and>
   (jQuestion d = Absent \<longrightarrow> question (parseResponse d) = []) \<and>
   (jAnswer d = Absent \<longrightarrow> answer (parseResponse d) = []) \<and>
   (jAD d = Absent \<longrightarrow> AD (parseResponse d) = False) \<and>
   (jCD d = Absent \<longrightarrow> CD (parseResponse d) = False) \<and>
   (jTC d = Absent \<longrightarrow> TC (parseResponse d) = False) \<and>
   (jRD d = Absent \<longrightarrow> RD (parseResponse d) = True) \<and>
   (jRA d = Absent \<longrightarrow> RA (parseResponse d) = True) \<and>
   (net endpoint domain ty timeout = HttpResponse True st txt (Body d) \<longrightarrow>
      queryDoHResolver net endpoint domain (Inl ty) timeout = Inr (parseResponse d))"
  by (simp add: parseResponse_def orElse_def optMap_def queryDoHResolver_def)

theorem parseResponse_defaults_witness:
  "status (parseResponse emptyPayload) = 0 \<and>
   question (parseResponse emptyPayload) = [] \<and>
   answer (parseResponse emptyPayload) = [] \<and>
   \<not> AD (parseResponse emptyPayload) \<and>
   \<not> CD (parseResponse emptyPayload) \<and>
   \<not> TC (parseResponse emptyPayload) \<and>
   RD (parseResponse emptyPayload) \<and>
   RA (parseResponse emptyPayload) \<and>
   queryDoHResolver exampleNet ''https://dns.google/resolve'' ''example.com'' (Inl ''A'') 5000 =
     Inr (parseResponse emptyPayload)"
  using parseResponse_defaults[of emptyPayload exampleNet "''https://dns.google/resolve''"
      "''example.com''" "''A''" 5000 200 "''OK''"]
  by (simp add: emptyPayload_def exampleNet_def)

text \<open>
  C4, as the claim words it, fails on the recursion flags: when they are absent, RD and
  RA are true, not false.
\<close>

theorem recursion_flags_default_true:
  "jRD emptyPayload = Absent \<and> jRA emptyPayload = Absent \<and>
   RD (parseResponse emptyPayload) = True \<and> RA (parseResponse emptyPayload) = True"
  by (simp add: emptyPayload_def parseResponse_def orElse_def)

section \<open>Propagation check: results\<close>

lemma mset_settle: "mset (settle schedule pending) = mset pending"
proof (induction schedule arbitrary: pending)
  case Nil
  show ?case by simp
next
  case (Cons k ks)
  have "mset (settle (k # ks) pending) =
      mset (filter (\<lambda>e. fst e = k) pending) + mset (filter (\<lambda>e. fst e \<noteq> k) pending)"
    by (simp add: Cons.IH)
  then show ?case by (simp add: multiset_partition[symmetric])
qed

lemma settle_in_schedule_order:
  "distinct (map fst pending) \<Longrightarrow> distinct schedule \<Longrightarrow> set schedule = fst ` set pending \<Longrightarrow>
   map fst (settle schedule pending) = schedule"
proof (induction schedule arbitrary: pending)
  case Nil
  then show ?case by simp
next
  case (Cons k ks)
  let ?rest = "filter (\<lambda>e. fst e \<noteq> k) pending"
  have d: "distinct (map fst ?rest)"
    using Cons.prems(1) by (simp add: distinct_map_filter)
  have s: "set ks = fst ` set ?rest"
  proof
    show "set ks \<subseteq> fst ` set ?rest"
    proof
      fix x assume x: "x \<in> set ks"
      then have "x \<noteq> k" using Cons.prems(2) by auto
      moreover have "x \<in> fst ` set pending" using x Cons.prems(3) by auto
      ultimately show "x \<in> fst ` set ?rest" by auto
    qed
    show "fst ` set ?rest \<subseteq> set ks"
      using Cons.prems(3) by auto
  qed
  have rest: "map fst (settle ks ?rest) = ks"
    using Cons.IH[OF d _ s] Cons.prems(2) by simp
  have "k \<in> fst ` set pending" using Cons.prems(3) by auto
  then obtain v where v: "(k, v) \<in> set pending" by auto
  have "map fst (filter (\<lambda>e. fst e = k) pending) = filter (\<lambda>x. x = k) (map fst pending)"
    by (simp add: filter_map comp_def)
  also have "\<dots> = [k]"
  proof -
    have "k \<in> set (map fst pending)" using v by force
    then obtain xs ys where split: "map fst pending = xs @ k # ys"
      by (meson split_list)
    with Cons.prems(1) have "k \<notin> set xs" "k \<notin> set ys" by auto
    then have "filter (\<lambda>x. x = k) xs = []" "filter (\<lambda>x. x = k) ys = []"
      by (induction xs, auto) (induction ys, auto)
    then show ?thesis unfolding split by simp
  qed
  finally show ?case using rest by simp
qed

lemma resolver_resultOf: "resolver (resultOf net clk domain ty e) = r_name (snd e)"
  by (simp add: resultOf_def split: sum.splits)

lemma registry_names: "map (r_name \<circ> snd) GLOBAL_RESOLVERS = registryNames"
  by (simp add: GLOBAL_RESOLVERS_def registryNames_def)

lemma registry_keys_distinct: "distinct (map fst GLOBAL_RESOLVERS)"
  by (simp add: GLOBAL_RESOLVERS_def)

lemma nameOfKey_entry: "e \<in> set GLOBAL_RESOLVERS \<Longrightarrow> nameOfKey (fst e) = r_name (snd e)"
  using registry_keys_distinct by (cases e) (simp add: nameOfKey_def)

lemma resolvers_of_checkPropagation:
  "map resolver (checkPropagation net clk schedule domain ty) =
     map (r_name \<circ> snd) (settle schedule GLOBAL_RESOLVERS)"
  by (simp add: checkPropagation_def resolver_resultOf comp_def)

text \<open>
  C1, as the source has it. For every domain, record type and order of completion, the
  returned sequence holds exactly one result per registered resolver (it is a permutation
  of the results of the registry's entries, of length 7), in the order in which the
  queries complete: for a schedule that names every resolver once, the results follow the
  schedule. They are in registry order when the queries complete in registry order.
\<close>

theorem checkPropagation_completion_order:
  "mset (checkPropagation net clk schedule domain ty) =
     mset (map (resultOf net clk domain ty) GLOBAL_RESOLVERS) \<and>
   mset (map resolver (checkPropagation net clk schedule domain ty)) = mset registryNames \<and>
   length (checkPropagation net clk schedule domain ty) = 7 \<and>
   (distinct schedule \<and> set schedule = set (map fst GLOBAL_RESOLVERS) \<longrightarrow>
      map resolver (checkPropagation net clk schedule domain ty) = map nameOfKey schedule) \<and>
   (schedule = map fst GLOBAL_RESOLVERS \<longrightarrow>
      map resolver (checkPropagation net clk schedule domain ty) = registryNames)"
proof -
  let ?rs = "checkPropagation net clk schedule domain ty"
  have m: "mset ?rs = mset (map (resultOf net clk domain ty) GLOBAL_RESOLVERS)"
    by (simp add: checkPropagation_def mset_settle)
  have n: "mset (map resolver ?rs) = mset registryNames"
    unfolding resolvers_of_checkPropagation registry_names[symmetric]
    by (simp add: mset_settle)
  have l: "length ?rs = 7"
    using arg_cong[OF m, of size] by (simp add: GLOBAL_RESOLVERS_def)
  have o: "map resolver ?rs = map nameOfKey schedule"
    if "distinct schedule" "set schedule = set (map fst GLOBAL_RESOLVERS)"
  proof -
    have k: "map fst (settle schedule GLOBAL_RESOLVERS) = schedule"
      using that by (intro settle_in_schedule_order registry_keys_distinct) auto
    have "set (settle schedule GLOBAL_RESOLVERS) = set GLOBAL_RESOLVERS"
      by (metis mset_settle set_mset_mset)
    then have "map (r_name \<circ> snd) (settle schedule GLOBAL_RESOLVERS) =
        map (nameOfKey \<circ> fst) (settle schedule GLOBAL_RESOLVERS)"
      by (intro map_cong) (auto simp: nameOfKey_entry)
    also have "\<dots> = map nameOfKey schedule"
      using k by (metis map_map)
    finally show ?thesis by (simp add: resolvers_of_checkPropagation)
  qed
  have r: "map resolver ?rs = registryNames" if "schedule = map fst GLOBAL_RESOLVERS"
    using o[OF _ _] that registry_keys_distinct
    by (simp add: GLOBAL_RESOLVERS_def nameOfKey_def registryNames_def)
  show ?thesis using m n l o r by blast
qed

theorem checkPropagation_completion_order_witness:
  "map resolver
     (checkPropagation exampleNet exampleClock
        [''control_d'', ''nextdns'', ''adguard'', ''dns_sb_asia'', ''quad9_eu'',
         ''cloudflare_us'', ''google_us'']
        ''example.com'' ''A'') =
     [''Control D'', ''NextDNS'', ''AdGuard DNS'', ''DNS.SB'', ''Quad9 DNS'',
      ''Cloudflare DNS'', ''Google Public DNS'']"
proof -
  let ?schedule = "[''control_d'', ''nextdns'', ''adguard'', ''dns_sb_asia'', ''quad9_eu'',
    ''cloudflare_us'', ''google_us'']"
  have d: "distinct ?schedule" by simp
  have s: "set ?schedule = set (map fst GLOBAL_RESOLVERS)"
    by (simp add: GLOBAL_RESOLVERS_def insert_commute)
  from checkPropagation_completion_order[of exampleNet exampleClock ?schedule
      "''example.com''" "''A''"] d s
  have "map resolver (checkPropagation exampleNet exampleClock ?schedule ''example.com'' ''A'') =
      map nameOfKey ?schedule"
    by blast
  then show ?thesis by (simp add: GLOBAL_RESOLVERS_def nameOfKey_def)
qed

text \<open>
  C1, as the claim words it, fails when a later resolver answers first: if Cloudflare's
  query completes before the others, its result is first, before Google's.
\<close>

theorem checkPropagation_not_registry_order:
  "map resolver
     (checkPropagation exampleNet exampleClock [''cloudflare_us''] ''example.com'' ''A'') =
     [''Cloudflare DNS'', ''Google Public DNS'', ''Quad9 DNS'', ''DNS.SB'', ''AdGuard DNS'',
      ''NextDNS'', ''Control D''] \<and>
   map resolver
     (checkPropagation exampleNet exampleClock [''cloudflare_us''] ''example.com'' ''A'') \<noteq>
     registryNames"
  unfolding resolvers_of_checkPropagation
  by (simp add: GLOBAL_RESOLVERS_def registryNames_def)

section \<open>Propagation analyzer: results\<close>

lemma fold_checkIndex:
  "fold (checkIndex succ ips) [a ..< b] (c, d) =
     ((c \<and> (\<forall>i. a \<le> i \<and> i < b \<longrightarrow> ips ! i = ips ! 0)),
      d @ map (\<lambda>i. discrepancyText (resolver (succ ! i)) (ips ! i))
            (filter (\<lambda>i. ips ! i \<noteq> ips ! 0) [a ..< b]))"
proof (induction b)
  case 0
  show ?case by simp
next
  case (Suc b)
  show ?case
  proof (cases "a \<le> b")
    case True
    have step: "fold (checkIndex succ ips) [a ..< Suc b] (c, d) =
        checkIndex succ ips b (fold (checkIndex succ ips) [a ..< b] (c, d))"
      using True by simp
    show ?thesis
      unfolding step Suc.IH using True
      by (auto simp: checkIndex_def less_Suc_eq)
  next
    case False
    then show ?thesis by auto
  qed
qed

lemma consistentRecords_eq:
  "consistentRecords (analyzePropagation results) =
     (\<forall>i. 1 \<le> i \<and> i < length (ipSetsOf results) \<longrightarrow> ipSetsOf results ! i = ipSetsOf results ! 0)"
  by (auto simp: analyzePropagation_def Let_def fold_checkIndex ipSetsOf_def successfulOf_def)

lemma discrepancies_eq:
  "discrepancies (analyzePropagation results) =
     map (\<lambda>i. discrepancyText (resolver (successfulOf results ! i)) (ipSetsOf results ! i))
       (filter (\<lambda>i. ipSetsOf results ! i \<noteq> ipSetsOf results ! 0) [1 ..< length (ipSetsOf results)])"
  by (auto simp: analyzePropagation_def Let_def fold_checkIndex ipSetsOf_def successfulOf_def)

lemma consistentRecords_discrepancies:
  "consistentRecords (analyzePropagation results) =
     (discrepancies (analyzePropagation results) = [])"
  unfolding consistentRecords_eq discrepancies_eq
  by (auto simp: filter_empty_conv)

lemma length_ipSetsOf: "length (ipSetsOf results) \<le> length (successfulOf results)"
  by (simp add: ipSetsOf_def List.map_filter_def)

lemma ipSetsOf_responding:
  assumes "\<forall>r\<in>set results. pstatus r = Success \<longrightarrow> response r \<noteq> None"
  shows "ipSetsOf results = map ipsOf (successfulOf results)"
proof -
  have all: "\<forall>r\<in>set (successfulOf results). response r \<noteq> None"
    using assms by (simp add: successfulOf_def)
  then have "filter (\<lambda>r. response r \<noteq> None) (successfulOf results) = successfulOf results"
    by (simp add: filter_id_conv)
  then have "List.map_filter response (successfulOf results) =
      map (the \<circ> response) (successfulOf results)"
    by (simp add: List.map_filter_def)
  moreover have "map ipSet (map (the \<circ> response) (successfulOf results)) =
      map ipsOf (successfulOf results)"
    using all by (auto simp: ipsOf_def)
  ultimately show ?thesis by (simp add: ipSetsOf_def)
qed

lemma discrepancies_responding:
  assumes "\<forall>r\<in>set results. pstatus r = Success \<longrightarrow> response r \<noteq> None"
  shows "discrepancies (analyzePropagation results) =
     map (\<lambda>r. discrepancyText (resolver r) (ipsOf r))
       (filter (\<lambda>r. ipsOf r \<noteq> ipsOf (hd (successfulOf results))) (tl (successfulOf results)))"
proof -
  define succ where "succ = successfulOf results"
  have ips: "ipSetsOf results = map ipsOf succ"
    using assms by (simp add: ipSetsOf_responding succ_def)
  have tl: "tl succ = map ((!) succ) [1 ..< length succ]"
    by (rule nth_equalityI) (auto simp: nth_tl)
  have "discrepancies (analyzePropagation results) =
      map (\<lambda>i. discrepancyText (resolver (succ ! i)) (ipsOf (succ ! i)))
        (filter (\<lambda>i. ipsOf (succ ! i) \<noteq> ipsOf (succ ! 0)) [1 ..< length succ])"
  proof -
    have f: "filter (\<lambda>i. map ipsOf succ ! i \<noteq> map ipsOf succ ! 0) [1 ..< length (map ipsOf succ)] =
        filter (\<lambda>i. ipsOf (succ ! i) \<noteq> ipsOf (succ ! 0)) [1 ..< length succ]"
    proof (cases "succ = []")
      case True
      then show ?thesis by simp
    next
      case False
      then have "map ipsOf succ ! 0 = ipsOf (succ ! 0)" by (simp add: nth_map)
      then show ?thesis by (intro filter_cong) auto
    qed
    have "map (\<lambda>i. discrepancyText (resolver (succ ! i)) (map ipsOf succ ! i))
          (filter (\<lambda>i. ipsOf (succ ! i) \<noteq> ipsOf (succ ! 0)) [1 ..< length succ]) =
        map (\<lambda>i. discrepancyText (resolver (succ ! i)) (ipsOf (succ ! i)))
          (filter (\<lambda>i. ipsOf (succ ! i) \<noteq> ipsOf (succ ! 0)) [1 ..< length succ])"
      by (rule map_cong) auto
    then show ?thesis
      unfolding discrepancies_eq ips succ_def[symmetric] f .
  qed
  also have "\<dots> = map (\<lambda>r. discrepancyText (resolver r) (ipsOf r))
        (filter (\<lambda>r. ipsOf r \<noteq> ipsOf (hd succ)) (tl succ))"
  proof (cases succ)
    case Nil
    then show ?thesis by simp
  next
    case (Cons x xs)
    then have "succ ! 0 = hd succ" by simp
    then show ?thesis
      unfolding tl by (simp add: filter_map comp_def)
  qed
  finally show ?thesis by (simp add: succ_def)
qed

lemma percentage_empty: "percentage (analyzePropagation []) = NaN"
  by (simp add: analyzePropagation_def Let_def divideLengths_def times100_def Math_round_def)

lemma ipsOf_succeeded: "ipsOf (succeeded nm ips) = sort ips"
  by (simp add: ipsOf_def succeeded_def answering_def ipSet_def aRecord_def filter_map comp_def)

lemma successfulOf_exMixed:
  "successfulOf exMixed =
     [succeeded ''Google Public DNS'' [''1.1.1.1''],
      succeeded ''Cloudflare DNS'' [''2.2.2.2''],
      succeeded ''DNS.SB'' [''1.1.1.1'']]"
  by (simp add: exMixed_def successfulOf_def succeeded_def failed_def)

lemma responding_exMixed:
  "\<forall>r\<in>set exMixed. pstatus r = Success \<longrightarrow> response r \<noteq> None"
  by (simp add: exMixed_def succeeded_def failed_def)

lemma resolver_succeeded: "resolver (succeeded nm ips) = nm"
  by (simp add: succeeded_def)

lemma discrepancies_exMixed:
  "discrepancies (analyzePropagation exMixed) =
     [''Cloudflare DNS returned different IPs: 2.2.2.2'']"
  unfolding discrepancies_responding[OF responding_exMixed] successfulOf_exMixed
  by (simp add: ipsOf_succeeded resolver_succeeded discrepancyText_def)

lemma responding_exFirstDeviates:
  "\<forall>r\<in>set exFirstDeviates. pstatus r = Success \<longrightarrow> response r \<noteq> None"
  by (simp add: exFirstDeviates_def succeeded_def)

lemma successfulOf_exFirstDeviates: "successfulOf exFirstDeviates = exFirstDeviates"
  by (simp add: exFirstDeviates_def succeeded_def successfulOf_def)

lemma discrepancies_exFirstDeviates:
  "discrepancies (analyzePropagation exFirstDeviates) =
     [''Cloudflare DNS returned different IPs: 2.2.2.2'',
      ''Quad9 DNS returned different IPs: 2.2.2.2'']"
  unfolding discrepancies_responding[OF responding_exFirstDeviates] successfulOf_exFirstDeviates
  by (simp add: exFirstDeviates_def ipsOf_succeeded resolver_succeeded discrepancyText_def)

text \<open>
  When a successful result has no response, \<^verbatim>\<open>ipSets\<close> is shorter than \<^verbatim>\<open>successful\<close>
  and the loop reads the name at the index of the IP list: here Quad9's list is reported
  under Cloudflare's name.
\<close>

lemma discrepancies_exMissingResponse:
  "discrepancies (analyzePropagation exMissingResponse) =
     [''Cloudflare DNS returned different IPs: 2.2.2.2'']"
proof -
  have s: "successfulOf exMissingResponse = exMissingResponse"
    by (simp add: exMissingResponse_def successfulOf_def succeeded_def)
  have i: "ipSetsOf exMissingResponse = [[''1.1.1.1''], [''2.2.2.2'']]"
    unfolding ipSetsOf_def s
    by (simp add: exMissingResponse_def List.map_filter_def succeeded_def ipSet_def
        answering_def aRecord_def)
  have u: "[1 ..< 2] = [1::nat]" by (simp add: upt_rec)
  show ?thesis
    unfolding discrepancies_eq i s
    by (simp add: u exMissingResponse_def succeeded_def discrepancyText_def)
qed

subsection \<open>The claims about \<^verbatim>\<open>analyzePropagation\<close>\<close>

text \<open>
  C10. For every sequence of propagation results, the analysis has \<^verbatim>\<open>consistentRecords\<close>
  true if and only if its \<^verbatim>\<open>discrepancies\<close> list is empty.
\<close>

theorem consistent_iff_no_discrepancies:
  "consistentRecords (analyzePropagation results) \<longleftrightarrow>
     discrepancies (analyzePropagation results) = []"
proof -
  let ?ips = "ipSetsOf results"
  have "consistentRecords (analyzePropagation results) \<longleftrightarrow>
      (\<forall>i. 1 \<le> i \<and> i < length ?ips \<longrightarrow> ?ips ! i = ?ips ! 0)"
    by (rule consistentRecords_eq)
  also have "\<dots> \<longleftrightarrow> filter (\<lambda>i. ?ips ! i \<noteq> ?ips ! 0) [1 ..< length ?ips] = []"
    by (auto simp: filter_empty_conv)
  also have "\<dots> \<longleftrightarrow> discrepancies (analyzePropagation results) = []"
    unfolding discrepancies_eq by simp
  finally show ?thesis .
qed

theorem consistent_iff_no_discrepancies_witness:
  "\<not> consistentRecords (analyzePropagation exMixed) \<and>
   discrepancies (analyzePropagation exMixed) \<noteq> []"
  using consistent_iff_no_discrepancies[of exMixed] discrepancies_exMixed by simp

text \<open>
  C2, as the source has it. The comparison is with the first successful resolver: when
  every successful result carries its response, two successful resolvers that report
  different sorted IP lists make \<^verbatim>\<open>consistentRecords\<close> false, and every successful
  resolver after the first whose sorted IP list differs from the first one's is named in
  \<^verbatim>\<open>discrepancies\<close> together with its IP list; these are all the entries of
  \<^verbatim>\<open>discrepancies\<close>, in the order of the results.
\<close>

theorem deviating_from_first_named:
  assumes "\<forall>r\<in>set results. pstatus r = Success \<longrightarrow> response r \<noteq> None"
  shows
    "(\<forall>i j. i < length (successfulOf results) \<and> j < length (successfulOf results) \<and>
        ipsOf (successfulOf results ! i) \<noteq> ipsOf (successfulOf results ! j) \<longrightarrow>
        \<not> consistentRecords (analyzePropagation results)) \<and>
     (\<forall>i. 0 < i \<and> i < length (successfulOf results) \<and>
        ipsOf (successfulOf results ! i) \<noteq> ipsOf (successfulOf results ! 0) \<longrightarrow>
        discrepancyText (resolver (successfulOf results ! i))
            (ipsOf (successfulOf results ! i))
          \<in> set (discrepancies (analyzePropagation results))) \<and>
     discrepancies (analyzePropagation results) =
       map (\<lambda>r. discrepancyText (resolver r) (ipsOf r))
         (filter (\<lambda>r. ipsOf r \<noteq> ipsOf (hd (successfulOf results)))
            (tl (successfulOf results)))"
proof -
  define S where "S = successfulOf results"
  define D where "D = discrepancies (analyzePropagation results)"
  have D: "D = map (\<lambda>r. discrepancyText (resolver r) (ipsOf r))
      (filter (\<lambda>r. ipsOf r \<noteq> ipsOf (hd S)) (tl S))"
    unfolding D_def S_def by (rule discrepancies_responding[OF assms])
  have named: "discrepancyText (resolver (S ! i)) (ipsOf (S ! i)) \<in> set D"
    if "0 < i" "i < length S" "ipsOf (S ! i) \<noteq> ipsOf (S ! 0)" for i
  proof -
    from that obtain k where k: "i = Suc k" by (cases i) auto
    have ne: "S \<noteq> []" using that by auto
    have "S ! i = tl S ! k" using that k by (simp add: nth_tl)
    moreover have "k < length (tl S)" using that k by simp
    ultimately have "S ! i \<in> set (tl S)" by (metis nth_mem)
    moreover have "S ! 0 = hd S" using ne by (simp add: hd_conv_nth)
    ultimately have "S ! i \<in> set (filter (\<lambda>r. ipsOf r \<noteq> ipsOf (hd S)) (tl S))"
      using that by simp
    then show ?thesis unfolding D by (metis (no_types, lifting) image_eqI set_map)
  qed
  have inconsistent: "\<not> consistentRecords (analyzePropagation results)"
    if "i < length S" "j < length S" "ipsOf (S ! i) \<noteq> ipsOf (S ! j)" for i j
  proof -
    from that obtain k where "k < length S" "ipsOf (S ! k) \<noteq> ipsOf (S ! 0)"
      by metis
    moreover from this have "0 < k" by (cases k) auto
    ultimately have "D \<noteq> []" using named by fastforce
    then show ?thesis by (simp add: consistentRecords_discrepancies D_def)
  qed
  show ?thesis
    using named inconsistent D unfolding S_def D_def by blast
qed

theorem deviating_from_first_named_witness:
  "\<not> consistentRecords (analyzePropagation exMixed) \<and>
   ''Cloudflare DNS returned different IPs: 2.2.2.2''
     \<in> set (discrepancies (analyzePropagation exMixed))"
proof -
  note t = deviating_from_first_named[OF responding_exMixed, unfolded successfulOf_exMixed]
  from t have "\<not> consistentRecords (analyzePropagation exMixed)"
    by (elim conjE allE[where x = 0] allE[where x = "Suc 0"]) (simp add: ipsOf_succeeded)
  moreover from t have "discrepancyText ''Cloudflare DNS'' [''2.2.2.2'']
      \<in> set (discrepancies (analyzePropagation exMixed))"
    by (elim conjE allE[where x = "Suc 0"])
      (simp add: ipsOf_succeeded resolver_succeeded del: set_map)
  ultimately show ?thesis by (simp add: discrepancyText_def)
qed

text \<open>
  C2, as the claim words it, fails when the resolver that deviates is the first
  successful one: Google answers \<open>1.1.1.1\<close>, Cloudflare and Quad9 both answer
  \<open>2.2.2.2\<close>, and the discrepancies name Cloudflare and Quad9, not Google.
\<close>

theorem first_deviating_resolver_not_named:
  "resolver (exFirstDeviates ! 0) = ''Google Public DNS'' \<and>
   ipsOf (exFirstDeviates ! 0) = [''1.1.1.1''] \<and>
   ipsOf (exFirstDeviates ! 1) = [''2.2.2.2''] \<and>
   ipsOf (exFirstDeviates ! 2) = [''2.2.2.2''] \<and>
   discrepancies (analyzePropagation exFirstDeviates) =
     [''Cloudflare DNS returned different IPs: 2.2.2.2'',
      ''Quad9 DNS returned different IPs: 2.2.2.2''] \<and>
   discrepancyText ''Google Public DNS'' [''1.1.1.1'']
     \<notin> set (discrepancies (analyzePropagation exFirstDeviates))"
  unfolding discrepancies_exFirstDeviates
  by (simp add: exFirstDeviates_def ipsOf_succeeded resolver_succeeded discrepancyText_def)

text \<open>
  C6 at the empty sequence: \<^verbatim>\<open>0 / 0\<close> is \<^verbatim>\<open>NaN\<close>, so the percentage is \<^verbatim>\<open>NaN\<close>, which is
  not a number from 0 to 100.
\<close>

theorem percentage_of_no_results:
  "percentage (analyzePropagation []) = NaN \<and>
   \<not> inPercentRange (percentage (analyzePropagation []))"
  by (simp add: percentage_empty inPercentRange_def)

section \<open>Numbers: results\<close>

lemma bitlen_pos: "0 < a \<Longrightarrow> bitlen a = bitlen (a div 2) + 1"
  by (subst bitlen.simps) simp

lemma bitlen_nonpos: "a \<le> 0 \<Longrightarrow> bitlen a = 0"
  by (subst bitlen.simps) simp

lemma bitlen_bounds:
  "0 < a \<Longrightarrow> 0 < bitlen a \<and> 2 ^ nat (bitlen a - 1) \<le> a \<and> a < 2 ^ nat (bitlen a)"
proof (induction a rule: bitlen.induct)
  case (1 a)
  show ?case
  proof (cases "0 < a div 2")
    case False
    with "1.prems" have a: "a = 1" by linarith
    have "bitlen 1 = 1" by (simp add: bitlen_pos[of 1] bitlen_nonpos)
    with a show ?thesis by simp
  next
    case True
    define b where "b = bitlen (a div 2)"
    from "1.IH"[OF "1.prems" True] have
      b: "0 < b" "2 ^ nat (b - 1) \<le> a div 2" "a div 2 < 2 ^ nat b"
      by (simp_all add: b_def)
    have len: "bitlen a = b + 1" using "1.prems" by (simp add: bitlen_pos b_def)
    have "nat b = Suc (nat (b - 1))" using b(1) by simp
    then have p: "(2::int) ^ nat b = 2 * 2 ^ nat (b - 1)"
      by (metis power_Suc)
    have "2 ^ nat b \<le> a" using b(2) p by linarith
    moreover have "a < 2 * 2 ^ nat b" using b(3) by linarith
    moreover have "(2::int) ^ nat (b + 1) = 2 * 2 ^ nat b"
      using b(1) by (simp add: nat_add_distrib)
    ultimately show ?thesis using b(1) len by simp
  qed
qed

lemma roundHalfEven_error: "\<bar>of_int (roundHalfEven q) - q\<bar> \<le> 1 / 2"
proof -
  have "of_int \<lfloor>q\<rfloor> \<le> q" "q < of_int \<lfloor>q\<rfloor> + 1" by linarith+
  then show ?thesis
    by (auto simp: roundHalfEven_def Let_def abs_le_iff)
qed

lemma ilog2_bounds:
  assumes "0 < x"
  shows "2 powi (ilog2 x) \<le> x \<and> x < 2 powi (ilog2 x + 1)"
proof -
  obtain a b where q: "quotient_of x = (a, b)" by fastforce
  have b: "0 < b" using q by (rule quotient_of_denom_pos)
  have x: "x = of_int a / of_int b" using q by (rule quotient_of_div)
  have a: "0 < a" using assms b unfolding x by (simp add: zero_less_divide_iff)
  define la where "la = bitlen a"
  define lb where "lb = bitlen b"
  define k where "k = la - lb"
  from bitlen_bounds[OF a] have la: "0 < la" "2 ^ nat (la - 1) \<le> a" "a < 2 ^ nat la"
    by (simp_all add: la_def)
  from bitlen_bounds[OF b] have lb: "0 < lb" "2 ^ nat (lb - 1) \<le> b" "b < 2 ^ nat lb"
    by (simp_all add: lb_def)
  have pa: "(2::rat) powi (la - 1) \<le> of_int a" "of_int a < (2::rat) powi la"
  proof -
    have "(of_int (2 ^ nat (la - 1)) :: rat) \<le> of_int a" using la(2) by (simp only: of_int_le_iff)
    then show "(2::rat) powi (la - 1) \<le> of_int a" using la(1) by (simp add: power_int_def)
    have "(of_int a :: rat) < of_int (2 ^ nat la)" using la(3) by (simp only: of_int_less_iff)
    then show "of_int a < (2::rat) powi la" using la(1) by (simp add: power_int_def)
  qed
  have pb: "(2::rat) powi (lb - 1) \<le> of_int b" "of_int b < (2::rat) powi lb"
  proof -
    have "(of_int (2 ^ nat (lb - 1)) :: rat) \<le> of_int b" using lb(2) by (simp only: of_int_le_iff)
    then show "(2::rat) powi (lb - 1) \<le> of_int b" using lb(1) by (simp add: power_int_def)
    have "(of_int b :: rat) < of_int (2 ^ nat lb)" using lb(3) by (simp only: of_int_less_iff)
    then show "of_int b < (2::rat) powi lb" using lb(1) by (simp add: power_int_def)
  qed
  have bpos: "(0::rat) < of_int b" using b by simp
  have lower: "(2::rat) powi (k - 1) \<le> x"
  proof -
    have "k - 1 = (la - 1) - lb" by (simp add: k_def)
    moreover have "(2::rat) powi ((la - 1) - lb) = 2 powi (la - 1) / 2 powi lb"
      by (rule power_int_diff) simp
    ultimately have "(2::rat) powi (k - 1) = 2 powi (la - 1) / 2 powi lb"
      by (simp only:)
    also have "\<dots> \<le> of_int a / 2 powi lb"
      using pa(1) by (simp add: divide_right_mono)
    also have "\<dots> \<le> of_int a / of_int b"
      using pb(2) a bpos by (simp add: frac_le)
    finally show ?thesis unfolding x .
  qed
  have upper: "x < (2::rat) powi (k + 1)"
  proof -
    have "(of_int a :: rat) / of_int b < 2 powi la / of_int b"
      using pa(2) bpos by (simp add: divide_strict_right_mono)
    also have "\<dots> \<le> 2 powi la / 2 powi (lb - 1)"
      using pb(1) by (simp add: frac_le)
    also have "\<dots> = (2::rat) powi (k + 1)"
    proof -
      have "k + 1 = la - (lb - 1)" by (simp add: k_def)
      moreover have "(2::rat) powi (la - (lb - 1)) = 2 powi la / 2 powi (lb - 1)"
        by (rule power_int_diff) simp
      ultimately show ?thesis by (simp only:)
    qed
    finally show ?thesis unfolding x .
  qed
  have e: "ilog2 x = (if 2 powi k \<le> x then k else k - 1)"
    by (simp add: ilog2_def q la_def lb_def k_def Let_def)
  show ?thesis
  proof (cases "2 powi k \<le> x")
    case True
    then show ?thesis using e upper by simp
  next
    case False
    then show ?thesis using e lower by simp
  qed
qed

lemma fl_error:
  assumes "0 < x"
  shows "\<bar>fl x - x\<bar> \<le> x / 2 ^ 53"
proof -
  define e where "e = ilog2 x"
  define u :: rat where "u = 2 powi (e - 52)"
  define m where "m = roundHalfEven (x / u)"
  have u: "0 < u" by (simp add: u_def)
  have fl: "fl x = of_int m * u"
    using assms by (simp add: fl_def Let_def m_def u_def e_def)
  have "of_int m * u - x = (of_int m - x / u) * u"
    using u by (simp add: field_simps)
  then have "\<bar>fl x - x\<bar> = \<bar>of_int m - x / u\<bar> * u"
    using u by (simp add: fl abs_mult)
  also have "\<dots> \<le> (1 / 2) * u"
    using roundHalfEven_error[of "x / u"] u unfolding m_def
    by (intro mult_right_mono) simp_all
  also have "\<dots> = 2 powi e / 2 ^ 53"
  proof -
    have "e - 52 = e - 53 + 1" by simp
    then have "u = 2 powi (e - 53) * 2"
      unfolding u_def by (metis power_int_add_1 zero_neq_numeral)
    moreover have "(2::rat) powi (e - 53) = 2 powi e / 2 powi 53"
      by (rule power_int_diff) simp
    ultimately show ?thesis by simp
  qed
  also have "\<dots> \<le> x / 2 ^ 53"
    using ilog2_bounds[OF assms] by (simp add: e_def divide_right_mono)
  finally show ?thesis .
qed

lemma roundHalfEven_mono: "a \<le> b \<Longrightarrow> roundHalfEven a \<le> roundHalfEven b"
proof -
  assume ab: "a \<le> b"
  have fa: "of_int \<lfloor>a\<rfloor> \<le> a" "a < of_int \<lfloor>a\<rfloor> + 1" by linarith+
  have fb: "of_int \<lfloor>b\<rfloor> \<le> b" "b < of_int \<lfloor>b\<rfloor> + 1" by linarith+
  have "\<lfloor>a\<rfloor> \<le> \<lfloor>b\<rfloor>" using ab by (rule floor_mono)
  then consider "\<lfloor>a\<rfloor> = \<lfloor>b\<rfloor>" | "\<lfloor>a\<rfloor> + 1 \<le> \<lfloor>b\<rfloor>" by linarith
  then show ?thesis
  proof cases
    case 1
    with ab show ?thesis by (auto simp: roundHalfEven_def Let_def)
  next
    case 2
    then show ?thesis by (auto simp: roundHalfEven_def Let_def)
  qed
qed

lemma roundHalfEven_of_int: "roundHalfEven (of_int m) = m"
  by (simp add: roundHalfEven_def)

text \<open>
  The model of the doubles is what it should be: the value of \<^const>\<open>fl\<close> has a significand of
  53 bits at the binary exponent of its argument, it lies within half a unit in the last
  place of the argument (\<open>fl_error\<close>), and one tenth is the familiar double.
\<close>

lemma fl_significand:
  assumes "0 < x"
  shows "\<exists>m. fl x = of_int m * 2 powi (ilog2 x - 52) \<and> 2 ^ 52 \<le> m \<and> m \<le> 2 ^ 53"
proof -
  define e where "e = ilog2 x"
  define u :: rat where "u = 2 powi (e - 52)"
  define m where "m = roundHalfEven (x / u)"
  have u: "0 < u" by (simp add: u_def)
  have fl: "fl x = of_int m * u"
    using assms by (simp add: fl_def Let_def m_def u_def e_def)
  have lo: "2 powi e = 2 ^ 52 * u"
  proof -
    have "(2::rat) powi (e - 52) = 2 powi e / 2 powi 52" by (rule power_int_diff) simp
    then show ?thesis by (simp add: u_def)
  qed
  have hi: "2 powi (e + 1) = 2 ^ 53 * u"
  proof -
    have "(2::rat) powi (e + 1) = 2 powi e * 2" by (rule power_int_add_1) simp
    then show ?thesis using lo by simp
  qed
  from ilog2_bounds[OF assms] have "2 ^ 52 * u \<le> x" "x < 2 ^ 53 * u"
    unfolding e_def[symmetric] lo hi by simp_all
  then have r: "of_int (2 ^ 52) \<le> x / u" "x / u \<le> of_int (2 ^ 53)"
    using u by (simp_all add: field_simps)
  have "roundHalfEven (of_int (2 ^ 52)) \<le> m"
    unfolding m_def using r(1) by (rule roundHalfEven_mono)
  moreover have "m \<le> roundHalfEven (of_int (2 ^ 53))"
    unfolding m_def using r(2) by (rule roundHalfEven_mono)
  ultimately have "2 ^ 52 \<le> m" "m \<le> 2 ^ 53"
    by (simp_all only: roundHalfEven_of_int)
  with fl show ?thesis unfolding u_def e_def by blast
qed

lemma fl_one_tenth: "fl (1 / 10) = 3602879701896397 / 36028797018963968"
  by code_simp

lemma frac_gap:
  fixes N D :: int
  assumes D: "0 < D" and nz: "frac (of_int N / of_int D :: rat) \<noteq> 0"
  shows "1 / of_int D \<le> frac (of_int N / of_int D :: rat)"
    and "frac (of_int N / of_int D :: rat) \<le> 1 - 1 / of_int D"
proof -
  define z :: rat where "z = of_int N / of_int D"
  define j where "j = N - D * \<lfloor>z\<rfloor>"
  have Dr: "(0::rat) < of_int D" using D by simp
  have j: "of_int j = of_int D * frac z"
    using Dr by (simp add: j_def frac_def z_def field_simps)
  have "0 < frac z" using nz frac_ge_0[of z] by (simp add: z_def less_le)
  then have "(0::rat) < of_int j" unfolding j using Dr by simp
  then have j1: "1 \<le> j" by simp
  have "frac z < 1" by (rule frac_lt_1)
  then have "(of_int j :: rat) < of_int D" unfolding j using Dr by simp
  then have j2: "j \<le> D - 1" by simp
  have "(1::rat) \<le> of_int j" using j1 by simp
  then show "1 / of_int D \<le> frac (of_int N / of_int D :: rat)"
    unfolding j z_def[symmetric] using Dr by (simp add: field_simps)
  have "(of_int j :: rat) \<le> of_int D - 1" using j2 by (metis of_int_1 of_int_diff of_int_le_iff)
  then show "frac (of_int N / of_int D :: rat) \<le> 1 - 1 / of_int D"
    unfolding j z_def[symmetric] using Dr by (simp add: field_simps)
qed

lemma round_product:
  fixes s n :: nat
  assumes s: "0 < s" "s \<le> n" and n: "n < 2 ^ 32"
  shows "\<lfloor>fl (fl (of_nat s / of_nat n) * 100) + 1 / 2\<rfloor> = specPercentage s n \<or>
         tie s n \<and> \<lfloor>fl (fl (of_nat s / of_nat n) * 100) + 1 / 2\<rfloor> = specPercentage s n - 1"
proof -
  define q :: rat where "q = of_nat s / of_nat n"
  define f1 where "f1 = fl q"
  define y where "y = f1 * 100"
  define f2 where "f2 = fl y"
  define z where "z = 100 * q + 1 / 2"
  define k where "k = \<lfloor>z\<rfloor>"
  define \<delta> :: rat where "\<delta> = 201 / 2 ^ 53"
  have npos: "0 < n" using s by simp
  have q: "0 < q" "q \<le> 1" using s npos by (simp_all add: q_def)
  have e1: "\<bar>f1 - q\<bar> \<le> q / 2 ^ 53" unfolding f1_def by (rule fl_error[OF q(1)])
  have f1: "0 < f1" "f1 \<le> q + q / 2 ^ 53"
  proof -
    from e1 have b: "f1 - q \<le> q / 2 ^ 53" "q - f1 \<le> q / 2 ^ 53"
      by (simp_all only: abs_le_iff minus_diff_eq)
    have "q / 2 ^ 53 < q" using q(1) by simp
    with b(2) show "0 < f1" by linarith
    from b(1) show "f1 \<le> q + q / 2 ^ 53" by linarith
  qed
  have ypos: "0 < y" using f1(1) by (simp add: y_def)
  have y101: "y \<le> 101"
  proof -
    have "f1 \<le> 1 + 1 / 2 ^ 53" using f1(2) q(2) by (simp add: field_simps)
    then show ?thesis by (simp add: y_def)
  qed
  have e2: "\<bar>f2 - y\<bar> \<le> y / 2 ^ 53" unfolding f2_def by (rule fl_error[OF ypos])
  have d: "\<bar>f2 - 100 * q\<bar> \<le> \<delta>"
  proof -
    have "\<bar>f2 - 100 * q\<bar> \<le> \<bar>f2 - y\<bar> + \<bar>y - 100 * q\<bar>" by simp
    moreover have "\<bar>f2 - y\<bar> \<le> 101 / 2 ^ 53"
      using e2 y101 by (simp add: field_simps)
    moreover have "\<bar>y - 100 * q\<bar> \<le> 100 / 2 ^ 53"
    proof -
      have "y - 100 * q = 100 * (f1 - q)" by (simp add: y_def algebra_simps)
      then have "\<bar>y - 100 * q\<bar> = 100 * \<bar>f1 - q\<bar>" by (simp only: abs_mult abs_numeral)
      also have "\<dots> \<le> 100 * (q / 2 ^ 53)" using e1 by simp
      also have "\<dots> \<le> 100 / 2 ^ 53" using q(2) by (simp add: field_simps)
      finally show ?thesis .
    qed
    ultimately show ?thesis by (simp add: \<delta>_def)
  qed
  have zf: "z = of_int k + frac z" by (simp add: k_def frac_def)
  have spec: "specPercentage s n = k"
    by (simp add: specPercentage_def k_def z_def q_def)
  have sum: "f2 + 1 / 2 = z + (f2 - 100 * q)" by (simp add: z_def)
  have \<delta>1: "\<delta> < 1" by (simp add: \<delta>_def)
  show ?thesis
  proof (cases "frac z = 0")
    case True
    have zk: "z = of_int k" using zf[unfolded True] by simp
    have "frac (100 * q) = 1 / 2"
    proof -
      have "100 * q = of_int (k - 1) + 1 / 2" using zk by (simp add: z_def)
      then have "frac (100 * q) = frac (of_int (k - 1) + (1 / 2 :: rat))" by simp
      also have "\<dots> = frac (1 / 2 :: rat)" by (rule frac_add_of_int_left)
      also have "\<dots> = 1 / 2" by (simp add: frac_eq)
      finally show ?thesis .
    qed
    then have t: "tie s n" by (simp add: tie_def q_def)
    have lo: "of_int k - \<delta> \<le> f2 + 1 / 2" and hi: "f2 + 1 / 2 \<le> of_int k + \<delta>"
      using d unfolding sum zk by (simp_all add: abs_le_iff)
    show ?thesis
    proof (cases "of_int k \<le> f2 + 1 / 2")
      case True
      then have "\<lfloor>f2 + 1 / 2\<rfloor> = k"
        using hi \<delta>1 by (intro floor_unique) simp_all
      then show ?thesis using spec by (simp add: f2_def y_def f1_def q_def)
    next
      case False
      then have "\<lfloor>f2 + 1 / 2\<rfloor> = k - 1"
        using lo \<delta>1 by (intro floor_unique) simp_all
      then show ?thesis using spec t by (simp add: f2_def y_def f1_def q_def)
    qed
  next
    case False
    have zq: "z = of_int (200 * int s + int n) / of_int (2 * int n)"
      using npos by (simp add: z_def q_def field_simps)
    have D: "0 < 2 * int n" using npos by simp
    from frac_gap[OF D, of "200 * int s + int n"] False
    have gap: "1 / of_int (2 * int n) \<le> frac z" "frac z \<le> 1 - 1 / of_int (2 * int n)"
      unfolding zq by simp_all
    have "(of_int (2 * int n) :: rat) < 2 ^ 33"
    proof -
      have "2 * int n < 2 ^ 33" using n by simp
      then have "(of_int (2 * int n) :: rat) < of_int (2 ^ 33)" by (simp only: of_int_less_iff)
      then show ?thesis by simp
    qed
    then have "(1 :: rat) / 2 ^ 33 < 1 / of_int (2 * int n)"
      using D by (simp add: field_simps)
    moreover have "\<delta> < 1 / 2 ^ 33" by (simp add: \<delta>_def)
    ultimately have small: "\<delta> < 1 / of_int (2 * int n)" by simp
    have "of_int k < f2 + 1 / 2"
      using d gap(1) small unfolding sum by (subst zf) (simp add: abs_le_iff)
    moreover have "f2 + 1 / 2 < of_int k + 1"
      using d gap(2) small unfolding sum by (subst zf) (simp add: abs_le_iff)
    ultimately have "\<lfloor>f2 + 1 / 2\<rfloor> = k"
      by (intro floor_unique) simp_all
    then show ?thesis using spec by (simp add: f2_def y_def f1_def q_def)
  qed
qed

lemma percentage_eq:
  "percentage (analyzePropagation results) =
     Math_round (times100 (divideLengths (length (successfulOf results)) (length results)))"
  by (simp add: analyzePropagation_def Let_def successfulOf_def split: prod.splits)

lemma percentage_nonempty:
  assumes "results \<noteq> []"
  shows "percentage (analyzePropagation results) =
     Fin (of_int \<lfloor>fl (fl (of_nat (length (successfulOf results)) / of_nat (length results)) * 100)
        + 1 / 2\<rfloor>)"
  using assms by (simp add: percentage_eq divideLengths_def times100_def Math_round_def)

lemma fl_zero: "fl 0 = 0"
  by (simp add: fl_def)

lemma percentage_cases:
  assumes "results \<noteq> []" "length results < 2 ^ 32"
  shows "percentage (analyzePropagation results) =
           Fin (of_int (specPercentage (length (successfulOf results)) (length results))) \<or>
         tie (length (successfulOf results)) (length results) \<and>
         percentage (analyzePropagation results) =
           Fin (of_int (specPercentage (length (successfulOf results)) (length results) - 1))"
proof (cases "length (successfulOf results) = 0")
  case True
  then show ?thesis
    using assms(1) by (simp add: percentage_nonempty fl_zero specPercentage_def)
next
  case False
  have "length (successfulOf results) \<le> length results"
    by (simp add: successfulOf_def)
  with False assms(2) round_product[of "length (successfulOf results)" "length results"]
  show ?thesis
    unfolding percentage_nonempty[OF assms(1)] by auto
qed

lemma round_23_of_40: "\<lfloor>fl (fl (23 / 40) * 100) + 1 / 2\<rfloor> = 57"
  by code_simp

lemma lengths_exTwentyThreeOfForty:
  "length (successfulOf exTwentyThreeOfForty) = 23" "length exTwentyThreeOfForty = 40"
  by (simp_all add: exTwentyThreeOfForty_def successfulOf_def succeeded_def failed_def)

lemma lengths_exFiveOfSeven:
  "length (successfulOf exFiveOfSeven) = 5" "length exFiveOfSeven = 7"
  by (simp_all add: exFiveOfSeven_def successfulOf_def succeeded_def failed_def)

lemma percentage_in_range:
  assumes "results \<noteq> []" "length results < 2 ^ 32"
  shows "inPercentRange (percentage (analyzePropagation results))"
proof -
  define s where "s = length (successfulOf results)"
  define n where "n = length results"
  have n: "0 < n" using assms(1) by (simp add: n_def)
  have sn: "s \<le> n" by (simp add: s_def n_def successfulOf_def)
  define t :: rat where "t = 100 * of_nat s / of_nat n"
  have t: "0 \<le> t" "t \<le> 100" using n sn by (simp_all add: t_def field_simps)
  have k: "0 \<le> specPercentage s n" "specPercentage s n \<le> 100"
    using t unfolding specPercentage_def t_def[symmetric] by (simp_all add: le_floor_iff floor_le_iff)
  have k1: "1 \<le> specPercentage s n" if "tie s n"
  proof -
    from that have "frac t = 1 / 2" by (simp add: tie_def t_def)
    moreover have "(0::rat) \<le> of_int \<lfloor>t\<rfloor>" using t(1) by simp
    ultimately have "1 / 2 \<le> t" unfolding frac_def by linarith
    then show ?thesis unfolding specPercentage_def t_def[symmetric] by (simp add: le_floor_iff)
  qed
  from percentage_cases[OF assms] k k1 show ?thesis
    unfolding s_def[symmetric] n_def[symmetric] by (auto simp: inPercentRange_def)
qed

subsection \<open>The claim about the percentage\<close>

text \<open>
  C9, as the source has it. The percentage is \<^verbatim>\<open>Math.round\<close> of the double
  \<^verbatim>\<open>(successful.length / results.length) * 100\<close>. For every non-empty sequence of
  results (of fewer than \<open>2\<^sup>3\<^sup>2\<close> elements, as every array has) it equals
  \<open>round(100 * successCount / totalResolverCount)\<close> whenever that exact percentage is
  not halfway between two integers; at such a tie it is that value or one less. In
  particular 5 successes out of 7 results give 71.
\<close>

theorem percentage_is_rounded_double:
  assumes "results \<noteq> []" and "length results < 2 ^ 32"
  shows
    "(\<not> tie (length (successfulOf results)) (length results) \<longrightarrow>
        percentage (analyzePropagation results) =
          Fin (of_int (specPercentage (length (successfulOf results)) (length results)))) \<and>
     (percentage (analyzePropagation results) =
        Fin (of_int (specPercentage (length (successfulOf results)) (length results))) \<or>
      percentage (analyzePropagation results) =
        Fin (of_int (specPercentage (length (successfulOf results)) (length results) - 1)))"
  using percentage_cases[OF assms] by blast

theorem percentage_is_rounded_double_witness:
  "length exFiveOfSeven = 7 \<and> length (successfulOf exFiveOfSeven) = 5 \<and>
   percentage (analyzePropagation exFiveOfSeven) = Fin 71"
proof -
  have ne: "exFiveOfSeven \<noteq> []" by (simp add: exFiveOfSeven_def)
  have small: "length exFiveOfSeven < 2 ^ 32" by (simp add: lengths_exFiveOfSeven)
  have "\<lfloor>500 / 7 :: rat\<rfloor> = 71" by (rule floor_unique) simp_all
  then have nt: "\<not> tie 5 7" by (simp add: tie_def frac_def)
  have "\<lfloor>100 * 5 / 7 + 1 / 2 :: rat\<rfloor> = 71" by (rule floor_unique) simp_all
  then have sp: "specPercentage 5 7 = 71" by (simp add: specPercentage_def)
  from percentage_is_rounded_double[OF ne small] nt sp show ?thesis
    by (simp add: lengths_exFiveOfSeven)
qed

text \<open>
  C9, as the claim words it, fails at a tie: 23 successes out of 40 results are exactly
  57.5 percent, which rounds to 58, but the double \<^verbatim>\<open>23 / 40\<close> lies below 0.575, its
  product with 100 is the double below 57.5, and the percentage is 57.
\<close>

theorem percentage_23_of_40:
  "length exTwentyThreeOfForty = 40 \<and> length (successfulOf exTwentyThreeOfForty) = 23 \<and>
   percentage (analyzePropagation exTwentyThreeOfForty) = Fin 57 \<and>
   specPercentage 23 40 = 58"
proof -
  have ne: "exTwentyThreeOfForty \<noteq> []" by (simp add: exTwentyThreeOfForty_def)
  have "percentage (analyzePropagation exTwentyThreeOfForty) = Fin 57"
    unfolding percentage_nonempty[OF ne] lengths_exTwentyThreeOfForty
    using round_23_of_40 by simp
  moreover have "\<lfloor>100 * 23 / 40 + 1 / 2 :: rat\<rfloor> = 58" by (rule floor_unique) simp_all
  then have "specPercentage 23 40 = 58" by (simp add: specPercentage_def)
  ultimately show ?thesis by (simp add: lengths_exTwentyThreeOfForty)
qed

section \<open>Subdomain discovery: results\<close>

subsection \<open>Sorting\<close>

lemma set_insertBy: "set (insertBy cmp x ys) = insert x (set ys)"
  by (induction ys) auto

lemma mset_insertBy: "mset (insertBy cmp x ys) = add_mset x (mset ys)"
  by (induction ys) auto

lemma mset_sortBy: "mset (sortBy cmp xs) = mset xs"
  unfolding sortBy_def by (induction xs) (auto simp: mset_insertBy)

lemma sorted_insertBy:
  assumes total: "\<And>a b. cmp a b \<le> 0 \<or> cmp b a \<le> 0"
    and trans: "\<And>a b c. cmp a b \<le> 0 \<Longrightarrow> cmp b c \<le> 0 \<Longrightarrow> cmp a c \<le> 0"
    and "sorted_wrt (\<lambda>a b. cmp a b \<le> 0) ys"
  shows "sorted_wrt (\<lambda>a b. cmp a b \<le> 0) (insertBy cmp x ys)"
  using assms(3)
proof (induction ys)
  case Nil
  show ?case by simp
next
  case (Cons y ys)
  show ?case
  proof (cases "cmp x y \<le> 0")
    case True
    then have "\<forall>z\<in>set ys. cmp x z \<le> 0"
      using Cons.prems trans by auto
    with True Cons.prems show ?thesis by simp
  next
    case False
    then have "cmp y x \<le> 0" using total[of x y] by simp
    with False Cons show ?thesis by (auto simp: set_insertBy)
  qed
qed

lemma sorted_sortBy:
  assumes total: "\<And>a b. cmp a b \<le> 0 \<or> cmp b a \<le> 0"
    and trans: "\<And>a b c. cmp a b \<le> 0 \<Longrightarrow> cmp b c \<le> 0 \<Longrightarrow> cmp a c \<le> 0"
  shows "sorted_wrt (\<lambda>a b. cmp a b \<le> 0) (sortBy cmp xs)"
  unfolding sortBy_def
  by (induction xs) (simp_all add: sorted_insertBy[OF total trans])

lemma subdomains_enumerate:
  "subdomains (enumerateSubdomains w domain opts) =
     sortBy (bySubdomain w)
       (fst (commonPhase w domain opts (fold (ctStep w domain opts) (w_ct w domain) ([], {}, 0))))"
  by (simp add: enumerateSubdomains_def Let_def)

lemma ordinalCompare_le: "ordinalCompare a b \<le> 0 \<longleftrightarrow> a \<le> b"
  by (auto simp: ordinalCompare_def)

lemma resolution_answeringNet:
  "checkSubdomainResolution answeringNet full = (True, [''93.184.216.34''])"
  by (simp add: checkSubdomainResolution_def queryDoHResolver_def answeringNet_def
      parseResponse_def optMap_def emptyPayload_def toRecord_def getRecordTypeName_def
      DNS_RECORD_TYPES_def Let_def)

lemma labels_exWorld:
  "map subdomain (subdomains (enumerateSubdomains exWorld ''example.com''
      (defaultOptions\<lparr>maxResults := 5\<rparr>))) = [''a'', ''mail'', ''webmail'', ''www'']"
  by (simp add: enumerateSubdomains_def exWorld_def defaultOptions_def ctStep_def ctResult_def
      commonPhase_def admitStep_def commonResult_def COMMON_SUBDOMAINS_def Let_def
      resolution_answeringNet checkSSLCertificate_def sortBy_def bySubdomain_def
      ordinalCompare_def List.map_filter_def)

lemma resolution_deadNet: "checkSubdomainResolution deadNet full = (False, [])"
  by (simp add: checkSubdomainResolution_def queryDoHResolver_def deadNet_def rethrow_def)

lemma labels_collatingWorld:
  "map subdomain (subdomains (enumerateSubdomains collatingWorld ''example.com''
      (defaultOptions\<lparr>maxResults := 2\<rparr>))) = [''@'', ''1'']"
  by (simp add: enumerateSubdomains_def collatingWorld_def defaultOptions_def ctStep_def
      ctResult_def commonPhase_def Let_def resolution_deadNet sortBy_def bySubdomain_def
      collate_def collationWeight_def)

lemma unsorted: "\<not> sorted [''@'', ''1'']"
  by simp

subsection \<open>The two phases\<close>

lemma fullDomain_ctResult: "fullDomain (ctResult w domain opts sub) = sub"
  by (simp add: ctResult_def Let_def)

lemma source_ctResult: "source (ctResult w domain opts sub) = ''Certificate Transparency''"
  by (simp add: ctResult_def Let_def)

lemma ctStep_cases:
  assumes "ctStep w domain opts x (subs, seen, n) = (subs', seen', n')"
  obtains (skip) "x \<in> seen \<or> maxResults opts \<le> int (length subs)"
      "subs' = subs" "seen' = seen" "n' = n"
  | (push) "x \<notin> seen" "int (length subs) < maxResults opts"
      "subs' = subs @ [ctResult w domain opts x]" "seen' = insert x seen" "n' = n + 1"
proof (cases "x \<in> seen \<or> maxResults opts \<le> int (length subs)")
  case True
  then have "ctStep w domain opts x (subs, seen, n) = (subs, seen, n)"
    by (simp add: ctStep_def)
  with assms have "subs' = subs" "seen' = seen" "n' = n" by simp_all
  with True show ?thesis by (rule skip)
next
  case False
  then have "ctStep w domain opts x (subs, seen, n) =
      (subs @ [ctResult w domain opts x], insert x seen, n + 1)"
    by (simp add: ctStep_def)
  with assms have "subs' = subs @ [ctResult w domain opts x]" "seen' = insert x seen" "n' = n + 1"
    by simp_all
  moreover from False have "x \<notin> seen" "int (length subs) < maxResults opts" by simp_all
  ultimately show ?thesis using push by blast
qed

lemma ct_loop:
  assumes "fold (ctStep w domain opts) xs (subs, seen, n) = (subs', seen', n')"
    and "set (map fullDomain subs) = seen"
    and "distinct (map fullDomain subs)"
    and "\<forall>r\<in>set subs. source r = ''Certificate Transparency''"
  shows "set (map fullDomain subs') = seen' \<and> distinct (map fullDomain subs') \<and>
         (\<forall>r\<in>set subs'. source r = ''Certificate Transparency'') \<and>
         seen \<subseteq> seen' \<and> length subs \<le> length subs' \<and>
         (\<forall>x\<in>set xs. x \<in> seen' \<or> maxResults opts \<le> int (length subs')) \<and>
         (\<forall>x\<in>set (take (nat (maxResults opts - int (length subs))) xs). x \<in> seen')"
  using assms
proof (induction xs arbitrary: subs seen n)
  case Nil
  then show ?case by simp
next
  case (Cons x xs)
  obtain subs1 seen1 n1 where step: "ctStep w domain opts x (subs, seen, n) = (subs1, seen1, n1)"
    by (metis prod_cases3)
  with Cons.prems(1) have rest: "fold (ctStep w domain opts) xs (subs1, seen1, n1) = (subs', seen', n')"
    by simp
  from step show ?case
  proof (cases rule: ctStep_cases)
    case skip
    note IH = Cons.IH[OF rest[unfolded skip(2,3,4)] Cons.prems(2,3,4)]
    have "x \<in> seen' \<or> maxResults opts \<le> int (length subs')"
      using skip(1) IH by auto
    moreover have "\<forall>y\<in>set (take (nat (maxResults opts - int (length subs))) (x # xs)). y \<in> seen'"
    proof
      fix y assume y: "y \<in> set (take (nat (maxResults opts - int (length subs))) (x # xs))"
      then have pos: "int (length subs) < maxResults opts"
        by (cases "nat (maxResults opts - int (length subs))") auto
      then obtain k where k: "nat (maxResults opts - int (length subs)) = Suc k"
        by (cases "nat (maxResults opts - int (length subs))") auto
      from y k have "y = x \<or> y \<in> set (take k xs)" by auto
      then show "y \<in> seen'"
      proof
        assume "y = x"
        with skip(1) pos IH show ?thesis by auto
      next
        assume "y \<in> set (take k xs)"
        then have "y \<in> set (take (Suc k) xs)"
          using set_take_subset_set_take[of k "Suc k" xs] by auto
        with IH k show ?thesis by auto
      qed
    qed
    ultimately show ?thesis using IH by auto
  next
    case push
    have i2: "set (map fullDomain subs1) = seen1"
      using Cons.prems(2) push by (simp add: fullDomain_ctResult)
    have i3: "distinct (map fullDomain subs1)"
      using Cons.prems(2,3) push by (auto simp: fullDomain_ctResult)
    have i4: "\<forall>r\<in>set subs1. source r = ''Certificate Transparency''"
      using Cons.prems(4) push by (auto simp: source_ctResult)
    note IH = Cons.IH[OF rest i2 i3 i4]
    have x: "x \<in> seen'" using IH push by auto
    moreover have "\<forall>y\<in>set (take (nat (maxResults opts - int (length subs))) (x # xs)). y \<in> seen'"
    proof
      fix y assume y: "y \<in> set (take (nat (maxResults opts - int (length subs))) (x # xs))"
      obtain k where k: "nat (maxResults opts - int (length subs)) = Suc k"
        using push(2) by (cases "nat (maxResults opts - int (length subs))") auto
      then have k': "nat (maxResults opts - int (length subs1)) = k"
        using push by simp
      from y k have "y = x \<or> y \<in> set (take k xs)" by auto
      with x IH k' show "y \<in> seen'" by auto
    qed
    ultimately show ?thesis using IH push by auto
  qed
qed

lemma admit_loop:
  assumes "fold (admitStep domain) cs (admitted, seen) = (admitted', seen')"
    and "distinct (map snd admitted)"
    and "snd ` set admitted \<subseteq> seen"
    and "snd ` set admitted \<inter> B = {}"
    and "B \<subseteq> seen"
  shows "distinct (map snd admitted') \<and> snd ` set admitted' \<inter> B = {}"
  using assms
proof (induction cs arbitrary: admitted seen)
  case Nil
  then show ?case by simp
next
  case (Cons c cs)
  let ?full = "c @ ''.'' @ domain"
  show ?case
  proof (cases "?full \<in> seen")
    case True
    then have "admitStep domain c (admitted, seen) = (admitted, seen)"
      by (simp add: admitStep_def)
    then have "fold (admitStep domain) cs (admitted, seen) = (admitted', seen')"
      using Cons.prems(1) by simp
    from Cons.IH[OF this Cons.prems(2,3,4,5)] show ?thesis .
  next
    case False
    then have "admitStep domain c (admitted, seen) =
        (admitted @ [(c, ?full)], insert ?full seen)"
      by (simp add: admitStep_def Let_def)
    then have "fold (admitStep domain) cs (admitted @ [(c, ?full)], insert ?full seen) =
        (admitted', seen')"
      using Cons.prems(1) by simp
    moreover have "distinct (map snd (admitted @ [(c, ?full)]))"
      using False Cons.prems(2,3) by auto
    moreover have "snd ` set (admitted @ [(c, ?full)]) \<subseteq> insert ?full seen"
      using Cons.prems(3) by auto
    moreover have "snd ` set (admitted @ [(c, ?full)]) \<inter> B = {}"
      using False Cons.prems(4,5) by auto
    moreover have "B \<subseteq> insert ?full seen"
      using Cons.prems(5) by auto
    ultimately show ?thesis by (rule Cons.IH)
  qed
qed

lemma commonResult_Some:
  "commonResult w opts e = Some r \<Longrightarrow>
     fullDomain r = snd e \<and> source r = ''Common Subdomain List''"
  by (auto simp: commonResult_def Let_def split: if_splits)

lemma fullDomain_pushed:
  "map fullDomain (List.map_filter (commonResult w opts) es) =
     map snd (filter (\<lambda>e. commonResult w opts e \<noteq> None) es)"
  by (induction es) (auto dest: commonResult_Some split: option.splits)

lemma source_pushed:
  "r \<in> set (List.map_filter (commonResult w opts) es) \<Longrightarrow> source r = ''Common Subdomain List''"
  by (auto simp: List.map_filter_def dest: commonResult_Some)

lemma distinct_settle:
  "distinct (map snd es) \<Longrightarrow> distinct (map snd (settle schedule es))"
proof -
  assume "distinct (map snd es)"
  moreover have "mset (map snd (settle schedule es)) = mset (map snd es)"
    by (simp add: mset_settle)
  ultimately show ?thesis by (metis mset_eq_imp_distinct_iff)
qed

lemma set_settle: "set (settle schedule es) = set es"
  by (metis mset_settle set_mset_mset)

lemma filter_unique:
  "distinct (map f xs) \<Longrightarrow> r \<in> set xs \<Longrightarrow> filter (\<lambda>y. f y = f r) xs = [r]"
proof (induction xs)
  case Nil
  then show ?case by simp
next
  case (Cons x xs)
  show ?case
  proof (cases "x = r")
    case True
    then have "f r \<notin> f ` set xs" using Cons.prems(1) by simp
    then have "\<forall>y\<in>set xs. f y \<noteq> f r" by (metis image_eqI)
    then have "filter (\<lambda>y. f y = f r) xs = []"
      by (simp add: filter_empty_conv)
    with True show ?thesis by simp
  next
    case False
    then have "r \<in> set xs" using Cons.prems(2) by simp
    moreover from this have "f x \<noteq> f r" using Cons.prems(1) by auto
    ultimately show ?thesis using Cons by simp
  qed
qed

lemma merged_list:
  fixes w domain opts
  defines "L \<equiv> fst (commonPhase w domain opts
      (fold (ctStep w domain opts) (w_ct w domain) ([], {}, 0)))"
  shows "distinct (map fullDomain L)"
    and "\<forall>r\<in>set L. fullDomain r \<in> set (w_ct w domain) \<longrightarrow>
           source r = ''Certificate Transparency''"
    and "\<forall>d\<in>set (take (nat (maxResults opts)) (w_ct w domain)).
           \<exists>r\<in>set L. fullDomain r = d \<and> source r = ''Certificate Transparency''"
proof -
  obtain subs seen n where ct: "fold (ctStep w domain opts) (w_ct w domain) ([], {}, 0) =
      (subs, seen, n)"
    by (metis prod_cases3)
  from ct_loop[OF ct] have
    seen: "set (map fullDomain subs) = seen" and
    dist: "distinct (map fullDomain subs)" and
    src: "\<forall>r\<in>set subs. source r = ''Certificate Transparency''" and
    full: "\<forall>x\<in>set (w_ct w domain). x \<in> seen \<or> maxResults opts \<le> int (length subs)" and
    adm: "\<forall>x\<in>set (take (nat (maxResults opts)) (w_ct w domain)). x \<in> seen"
    by simp_all
  have first: "\<exists>r\<in>set subs. fullDomain r = d \<and> source r = ''Certificate Transparency''"
    if "d \<in> set (take (nat (maxResults opts)) (w_ct w domain))" for d
  proof -
    from that adm have "d \<in> set (map fullDomain subs)" unfolding seen by blast
    then show ?thesis using src by auto
  qed
  show "distinct (map fullDomain L)"
    and "\<forall>r\<in>set L. fullDomain r \<in> set (w_ct w domain) \<longrightarrow>
           source r = ''Certificate Transparency''"
    and "\<forall>d\<in>set (take (nat (maxResults opts)) (w_ct w domain)).
           \<exists>r\<in>set L. fullDomain r = d \<and> source r = ''Certificate Transparency''"
  proof (atomize (full), cases "includeCommon opts \<and> int (length subs) < maxResults opts")
    case False
    then have L: "L = subs" unfolding L_def ct by (auto simp: commonPhase_def)
    show "distinct (map fullDomain L) \<and>
      (\<forall>r\<in>set L. fullDomain r \<in> set (w_ct w domain) \<longrightarrow>
         source r = ''Certificate Transparency'') \<and>
      (\<forall>d\<in>set (take (nat (maxResults opts)) (w_ct w domain)).
         \<exists>r\<in>set L. fullDomain r = d \<and> source r = ''Certificate Transparency'')"
      unfolding L using dist src first by blast
  next
    case True
    define cs where "cs = take (nat (maxResults opts - int (length subs))) COMMON_SUBDOMAINS"
    obtain admitted seen' where ad: "fold (admitStep domain) cs ([], seen) = (admitted, seen')"
      by (metis surj_pair)
    define pushed where
      "pushed = List.map_filter (commonResult w opts) (settle (w_schedule w) admitted)"
    have L: "L = subs @ pushed"
      unfolding L_def ct using True ad
      by (simp add: commonPhase_def Let_def cs_def pushed_def)
    from admit_loop[OF ad, of seen] have
      da: "distinct (map snd admitted)" and nb: "snd ` set admitted \<inter> seen = {}"
      by simp_all
    have fp: "map fullDomain pushed =
        map snd (filter (\<lambda>e. commonResult w opts e \<noteq> None) (settle (w_schedule w) admitted))"
      unfolding pushed_def by (rule fullDomain_pushed)
    have dp: "distinct (map fullDomain pushed)"
      unfolding fp using distinct_settle[OF da] by (simp add: distinct_map_filter)
    have np: "set (map fullDomain pushed) \<inter> seen = {}"
      unfolding fp using nb by (auto simp: set_settle)
    have allseen: "set (w_ct w domain) \<subseteq> seen"
      using full True by auto
    have d: "distinct (map fullDomain L)"
      unfolding L using dist dp np seen by auto
    have s: "\<forall>r\<in>set L. fullDomain r \<in> set (w_ct w domain) \<longrightarrow>
        source r = ''Certificate Transparency''"
    proof (intro ballI impI)
      fix r assume r: "r \<in> set L" "fullDomain r \<in> set (w_ct w domain)"
      then have "fullDomain r \<in> seen" using allseen by auto
      then have "r \<notin> set pushed" using np by auto
      with r(1) src show "source r = ''Certificate Transparency''" unfolding L by auto
    qed
    have e: "\<forall>d\<in>set (take (nat (maxResults opts)) (w_ct w domain)).
        \<exists>r\<in>set L. fullDomain r = d \<and> source r = ''Certificate Transparency''"
      unfolding L using first by auto
    show "distinct (map fullDomain L) \<and>
      (\<forall>r\<in>set L. fullDomain r \<in> set (w_ct w domain) \<longrightarrow>
         source r = ''Certificate Transparency'') \<and>
      (\<forall>d\<in>set (take (nat (maxResults opts)) (w_ct w domain)).
         \<exists>r\<in>set L. fullDomain r = d \<and> source r = ''Certificate Transparency'')"
      using d s e by blast
  qed
qed

lemma labels_exWorld_limit1:
  "map fullDomain (subdomains (enumerateSubdomains exWorld ''example.com''
      (defaultOptions\<lparr>maxResults := 1\<rparr>))) = [''a.example.com'']"
  by (simp add: enumerateSubdomains_def exWorld_def defaultOptions_def ctStep_def ctResult_def
      commonPhase_def Let_def resolution_answeringNet checkSSLCertificate_def sortBy_def)

lemma commonPhase_keeps:
  "set subs \<subseteq> set (fst (commonPhase w domain opts (subs, seen, n)))"
  by (auto simp: commonPhase_def Let_def split: prod.splits)

lemma ct_name_when_wordlist_runs:
  assumes "d \<in> set (w_ct w domain)" and "d \<in> set (wordlistNames w domain opts)"
  shows "\<exists>r\<in>set (fst (commonPhase w domain opts
            (fold (ctStep w domain opts) (w_ct w domain) ([], {}, 0)))).
           fullDomain r = d \<and> source r = ''Certificate Transparency''"
proof -
  obtain subs seen n where ct: "fold (ctStep w domain opts) (w_ct w domain) ([], {}, 0) =
      (subs, seen, n)"
    by (metis prod_cases3)
  from ct_loop[OF ct] have
    seen: "set (map fullDomain subs) = seen" and
    src: "\<forall>r\<in>set subs. source r = ''Certificate Transparency''" and
    full: "\<forall>x\<in>set (w_ct w domain). x \<in> seen \<or> maxResults opts \<le> int (length subs)"
    by simp_all
  have room: "int (length subs) < maxResults opts"
  proof (rule ccontr)
    assume "\<not> int (length subs) < maxResults opts"
    then have "wordlistNames w domain opts = []" by (simp add: wordlistNames_def ct)
    with assms(2) show False by simp
  qed
  with full assms(1) have "d \<in> set (map fullDomain subs)" unfolding seen by auto
  then obtain r where r: "r \<in> set subs" "fullDomain r = d" by auto
  with src have "source r = ''Certificate Transparency''" by simp
  moreover have "r \<in> set (fst (commonPhase w domain opts (subs, seen, n)))"
    using r(1) commonPhase_keeps by blast
  ultimately show ?thesis unfolding ct using r(2) by blast
qed

lemma wordlistNames_exWorld:
  "wordlistNames exWorld ''example.com'' (defaultOptions\<lparr>maxResults := 5\<rparr>) =
     [''www.example.com'', ''mail.example.com'', ''webmail.example.com'']"
  by (simp add: wordlistNames_def exWorld_def defaultOptions_def ctStep_def ctResult_def Let_def
      resolution_answeringNet checkSSLCertificate_def COMMON_SUBDOMAINS_def)

lemma wordlistNames_exWorld_limit1:
  "wordlistNames exWorld ''example.com'' (defaultOptions\<lparr>maxResults := 1\<rparr>) = []"
  by (simp add: wordlistNames_def exWorld_def defaultOptions_def ctStep_def ctResult_def Let_def
      resolution_answeringNet checkSSLCertificate_def)

text \<open>
  When the certificate transparency phase fills \<^verbatim>\<open>maxResults\<close>, the wordlist phase does not
  run and builds no name: with \<^verbatim>\<open>maxResults = 1\<close> the log's second name has no entry, and
  the wordlist produces nothing that could collide with it.
\<close>

lemma wordlist_phase_skipped:
  "''www.example.com'' \<in> set (w_ct exWorld ''example.com'') \<and>
   wordlistNames exWorld ''example.com'' (defaultOptions\<lparr>maxResults := 1\<rparr>) = [] \<and>
   map fullDomain (subdomains (enumerateSubdomains exWorld ''example.com''
      (defaultOptions\<lparr>maxResults := 1\<rparr>))) = [''a.example.com'']"
  unfolding labels_exWorld_limit1 wordlistNames_exWorld_limit1 by (simp add: exWorld_def)

subsection \<open>The claims about \<^verbatim>\<open>enumerateSubdomains\<close>\<close>

text \<open>
  C7, as the source has it. The final sequence is sorted by the subdomain label in
  ascending order under the comparison that \<^verbatim>\<open>localeCompare\<close> performs, for every
  world in which that comparison is consistent (any two labels are comparable, and the
  comparison is transitive).
\<close>

theorem subdomains_sorted_by_localeCompare:
  assumes "\<forall>a b. w_localeCompare w a b \<le> 0 \<or> w_localeCompare w b a \<le> 0"
    and "\<forall>a b c. w_localeCompare w a b \<le> 0 \<and> w_localeCompare w b c \<le> 0 \<longrightarrow>
           w_localeCompare w a c \<le> 0"
  shows "sorted_wrt (\<lambda>a b. w_localeCompare w a b \<le> 0)
           (map subdomain (subdomains (enumerateSubdomains w domain opts)))"
proof -
  have total: "bySubdomain w a b \<le> 0 \<or> bySubdomain w b a \<le> 0" for a b
    using assms(1) by (simp add: bySubdomain_def)
  have trans: "bySubdomain w a b \<le> 0 \<Longrightarrow> bySubdomain w b c \<le> 0 \<Longrightarrow> bySubdomain w a c \<le> 0"
    for a b c
    using assms(2) unfolding bySubdomain_def by blast
  have "sorted_wrt (\<lambda>a b. bySubdomain w a b \<le> 0)
      (subdomains (enumerateSubdomains w domain opts))"
    unfolding subdomains_enumerate by (rule sorted_sortBy[OF total trans])
  then show ?thesis by (simp add: sorted_wrt_map bySubdomain_def)
qed

theorem subdomains_sorted_by_localeCompare_witness:
  "sorted (map subdomain (subdomains (enumerateSubdomains exWorld ''example.com''
      (defaultOptions\<lparr>maxResults := 5\<rparr>)))) \<and>
   map subdomain (subdomains (enumerateSubdomains exWorld ''example.com''
      (defaultOptions\<lparr>maxResults := 5\<rparr>))) = [''a'', ''mail'', ''webmail'', ''www'']"
proof -
  have c: "w_localeCompare exWorld = ordinalCompare" by (simp add: exWorld_def)
  have total: "\<forall>a b. w_localeCompare exWorld a b \<le> 0 \<or> w_localeCompare exWorld b a \<le> 0"
    unfolding c ordinalCompare_le by auto
  have trans: "\<forall>a b c. w_localeCompare exWorld a b \<le> 0 \<and> w_localeCompare exWorld b c \<le> 0 \<longrightarrow>
      w_localeCompare exWorld a c \<le> 0"
    unfolding c ordinalCompare_le by auto
  have "sorted_wrt (\<lambda>a b. a \<le> b) (map subdomain (subdomains
      (enumerateSubdomains exWorld ''example.com'' (defaultOptions\<lparr>maxResults := 5\<rparr>))))"
    using subdomains_sorted_by_localeCompare[OF total trans] unfolding c ordinalCompare_le .
  then show ?thesis using labels_exWorld by simp
qed

text \<open>
  C7, as the claim words it, fails in a world that collates: the log knows the apex
  \<open>example.com\<close> (label \<open>@\<close>) and \<open>1.example.com\<close> (label \<open>1\<close>); the comparison puts
  \<open>@\<close> before \<open>1\<close>, the ordinal order puts \<open>1\<close> (code 49) before \<open>@\<close> (code 64).
\<close>

theorem subdomains_not_in_ordinal_order:
  "map subdomain (subdomains (enumerateSubdomains collatingWorld ''example.com''
      (defaultOptions\<lparr>maxResults := 2\<rparr>))) = [''@'', ''1''] \<and>
   \<not> sorted (map subdomain (subdomains (enumerateSubdomains collatingWorld ''example.com''
      (defaultOptions\<lparr>maxResults := 2\<rparr>))))"
  unfolding labels_collatingWorld by simp

text \<open>
  C8. For every enumeration run in which the same full domain name is produced both by the
  certificate transparency source and by the common-subdomain wordlist (the wordlist phase
  runs and builds that name), the final result contains exactly one entry for that full
  domain name, and that entry's source is "Certificate Transparency". Moreover no full
  domain name has two entries, and an entry for a name of the certificate transparency
  source always has that source.
\<close>

theorem one_entry_per_full_domain:
  "(\<forall>d. d \<in> set (w_ct w domain) \<and> d \<in> set (wordlistNames w domain opts) \<longrightarrow>
      (\<exists>r. filter (\<lambda>x. fullDomain x = d) (subdomains (enumerateSubdomains w domain opts)) = [r] \<and>
           source r = ''Certificate Transparency'')) \<and>
   distinct (map fullDomain (subdomains (enumerateSubdomains w domain opts))) \<and>
   (\<forall>r\<in>set (subdomains (enumerateSubdomains w domain opts)).
      fullDomain r \<in> set (w_ct w domain) \<longrightarrow> source r = ''Certificate Transparency'')"
proof -
  define L where "L = fst (commonPhase w domain opts
      (fold (ctStep w domain opts) (w_ct w domain) ([], {}, 0)))"
  define S where "S = subdomains (enumerateSubdomains w domain opts)"
  have S: "S = sortBy (bySubdomain w) L"
    unfolding S_def L_def by (rule subdomains_enumerate)
  have m: "mset S = mset L" unfolding S by (rule mset_sortBy)
  then have set: "set S = set L" by (metis set_mset_mset)
  have "mset (map fullDomain S) = mset (map fullDomain L)" using m by simp
  moreover have "distinct (map fullDomain L)" unfolding L_def by (rule merged_list(1))
  ultimately have d: "distinct (map fullDomain S)" by (metis mset_eq_imp_distinct_iff)
  have s: "\<forall>r\<in>set S. fullDomain r \<in> set (w_ct w domain) \<longrightarrow>
      source r = ''Certificate Transparency''"
    unfolding set L_def by (rule merged_list(2))
  have e: "\<exists>r. filter (\<lambda>x. fullDomain x = d) S = [r] \<and> source r = ''Certificate Transparency''"
    if "d \<in> set (w_ct w domain)" "d \<in> set (wordlistNames w domain opts)" for d
  proof -
    from ct_name_when_wordlist_runs[OF that] obtain r where
      r: "r \<in> set S" "fullDomain r = d" "source r = ''Certificate Transparency''"
      unfolding set L_def by blast
    from filter_unique[OF d r(1)] r(2,3) show ?thesis by auto
  qed
  show ?thesis using d s e unfolding S_def by blast
qed

theorem one_entry_per_full_domain_witness:
  "''www.example.com'' \<in> set (w_ct exWorld ''example.com'') \<and>
   ''www.example.com''
     \<in> set (wordlistNames exWorld ''example.com'' (defaultOptions\<lparr>maxResults := 5\<rparr>)) \<and>
   map source (filter (\<lambda>x. fullDomain x = ''www.example.com'')
     (subdomains (enumerateSubdomains exWorld ''example.com''
        (defaultOptions\<lparr>maxResults := 5\<rparr>)))) = [''Certificate Transparency'']"
proof -
  have c: "''www.example.com'' \<in> set (w_ct exWorld ''example.com'')"
    by (simp add: exWorld_def)
  have l: "''www.example.com''
      \<in> set (wordlistNames exWorld ''example.com'' (defaultOptions\<lparr>maxResults := 5\<rparr>))"
    unfolding wordlistNames_exWorld by simp
  from one_entry_per_full_domain[of exWorld "''example.com''" "defaultOptions\<lparr>maxResults := 5\<rparr>"]
    c l
  obtain r where "filter (\<lambda>x. fullDomain x = ''www.example.com'')
      (subdomains (enumerateSubdomains exWorld ''example.com''
        (defaultOptions\<lparr>maxResults := 5\<rparr>))) = [r]" "source r = ''Certificate Transparency''"
    by blast
  with c l show ?thesis by simp
qed

end
